theory Spec2Isabelle
  imports Main "HOL-Library.Word" "HOL-Library.Multiset"
begin

section \<open>JavaScript values used by the design system\<close>

text \<open>
  A JavaScript string is a sequence of 16-bit code units. String literals of the source
  are written with \<open>js\<close>, which maps each character to its code unit.
\<close>

type_synonym jschar = "16 word"
type_synonym jsstring = "jschar list"

definition js :: "string \<Rightarrow> jsstring" where
  "js s = map of_char s"

text \<open>
  What \<open>theme.get\<close> can hand back, and what \<open>resolveThemeValue\<close> returns: a string,
  \<open>null\<close> or \<open>undefined\<close>.
\<close>

datatype jsval = JNull | JUndefined | JString jsstring

text \<open>The nullish coalescing \<open>v ?? undefined\<close>.\<close>

fun nullish_undefined :: "jsval \<Rightarrow> jsval" where
  "nullish_undefined JNull = JUndefined"
| "nullish_undefined JUndefined = JUndefined"
| "nullish_undefined (JString s) = JString s"

text \<open>Truthiness of such a value: only a non-empty string is truthy.\<close>

fun truthy :: "jsval \<Rightarrow> bool" where
  "truthy (JString s) = (s \<noteq> [])"
| "truthy _ = False"

subsection \<open>String built-ins\<close>

text \<open>
  \<open>String.prototype.lastIndexOf\<close> with a one-character search string: the index of the
  last occurrence, or \<open>-1\<close>.
\<close>

fun lastIndexOf_aux :: "'a list \<Rightarrow> 'a \<Rightarrow> int \<Rightarrow> int \<Rightarrow> int" where
  "lastIndexOf_aux [] c i found = found"
| "lastIndexOf_aux (x # xs) c i found =
     lastIndexOf_aux xs c (i + 1) (if x = c then i else found)"

definition lastIndexOf :: "'a list \<Rightarrow> 'a \<Rightarrow> int" where
  "lastIndexOf s c = lastIndexOf_aux s c 0 (- 1)"

text \<open>
  \<open>String.prototype.slice(start, end)\<close>: a negative index counts from the end, every
  index is clamped to the string, and an absent \<open>end\<close> is the length.
\<close>

definition js_slice :: "'a list \<Rightarrow> int \<Rightarrow> int option \<Rightarrow> 'a list" where
  "js_slice s start end' =
     (let len = int (length s);
          from = (if start < 0 then max (len + start) 0 else min start len);
          e = (case end' of None \<Rightarrow> len | Some e \<Rightarrow> e);
          to = (if e < 0 then max (len + e) 0 else min e len)
      in take (nat (to - from)) (drop (nat from) s))"

text \<open>
  \<open>String.prototype.trim\<close> removes the code units of WhiteSpace and LineTerminator from
  both ends.
\<close>

definition js_whitespace :: "jschar \<Rightarrow> bool" where
  "js_whitespace c \<longleftrightarrow> c \<in> set [0x0009, 0x000A, 0x000B, 0x000C, 0x000D, 0x0020, 0x00A0,
     0x1680, 0x2000, 0x2001, 0x2002, 0x2003, 0x2004, 0x2005, 0x2006, 0x2007, 0x2008,
     0x2009, 0x200A, 0x2028, 0x2029, 0x202F, 0x205F, 0x3000, 0xFEFF]"

definition js_trim :: "jsstring \<Rightarrow> jsstring" where
  "js_trim s = rev (dropWhile js_whitespace (rev (dropWhile js_whitespace s)))"

section \<open>Theme value resolution\<close>

text \<open>
  The first half of \<open>resolveThemeValue\<close>: the lookup path and the modifier (\<open>None\<close> is
  the source's \<open>null\<close>) extracted from the argument.
\<close>

definition slash :: jschar where
  "slash = 0x2F"

definition extractModifier :: "jsstring \<Rightarrow> jsstring \<times> jsstring option" where
  "extractModifier path =
     (let lastSlash = lastIndexOf path slash
      in if lastSlash \<noteq> - 1
         then (js_trim (js_slice path 0 (Some lastSlash)),
               Some (js_trim (js_slice path (lastSlash + 1) None)))
         else (path, None))"

text \<open>
  \<open>resolveThemeValue\<close>. The theme's \<open>get\<close> (called with a one-element key list) and
  \<open>withAlpha\<close> are collaborators defined outside this file, so they are parameters.
  \<open>modifier && themeValue\<close> is a truthiness test on both.
\<close>

definition resolveThemeValue ::
  "(jsstring list \<Rightarrow> jsval) \<Rightarrow> (jsstring \<Rightarrow> jsstring \<Rightarrow> jsstring) \<Rightarrow> jsstring \<Rightarrow> jsval" where
  "resolveThemeValue theme_get withAlpha path =
     (let (path', modifier) = extractModifier path;
          themeValue = nullish_undefined (theme_get [path'])
      in case (modifier, themeValue) of
           (Some m, JString v) \<Rightarrow>
             if m \<noteq> [] \<and> truthy themeValue then JString (withAlpha v m) else themeValue
         | _ \<Rightarrow> themeValue)"

text \<open>
  Example collaborators for the concrete instances below: a theme holding the single key
  \<open>--color-red-500\<close> (its \<open>get\<close> answers \<open>null\<close> for anything else), and an
  opacity transform that builds a \<open>color-mix\<close> expression.
\<close>

definition demo_theme :: "jsstring list \<Rightarrow> jsval" where
  "demo_theme keys = (if keys = [js ''--color-red-500''] then JString (js ''red'') else JNull)"

definition demo_withAlpha :: "jsstring \<Rightarrow> jsstring \<Rightarrow> jsstring" where
  "demo_withAlpha v alpha =
     js ''color-mix(in oklab, '' @ v @ js '' '' @ alpha @ js '', transparent)''"

section \<open>Variant order\<close>

text \<open>
  \<open>Array.prototype.sort\<close> with a comparison function is a stable sort: \<open>a\<close> goes before
  \<open>z\<close> when the comparison is negative, and elements that compare as equal keep their
  order. It is modelled by stable insertion; for a consistent comparison function every
  stable sort returns the same array.
\<close>

fun insert_by :: "('a \<Rightarrow> 'a \<Rightarrow> int) \<Rightarrow> 'a \<Rightarrow> 'a list \<Rightarrow> 'a list" where
  "insert_by cmp x [] = [x]"
| "insert_by cmp x (y # ys) = (if cmp x y \<le> 0 then x # y # ys else y # insert_by cmp x ys)"

definition js_sort :: "('a \<Rightarrow> 'a \<Rightarrow> int) \<Rightarrow> 'a list \<Rightarrow> 'a list" where
  "js_sort cmp xs = foldr (insert_by cmp) xs []"

text \<open>
  The loop of \<open>getVariantOrder\<close> over the sorted array. A cached value is a variant
  (\<open>Some v\<close>) or \<open>null\<close> (\<open>None\<close>); the state is the \<open>order\<close> map, \<open>prevVariant\<close>
  (\<open>None\<close> while it is \<open>undefined\<close>) and \<open>index\<close>. A JavaScript \<open>Map\<close> accepts any
  value as a key, so the keys of \<open>order\<close> are nullable here as well. The registry's
  \<open>compare\<close> is a collaborator defined outside this file, so it is a parameter.
\<close>

type_synonym 'v order_state = "('v option \<rightharpoonup> nat) \<times> 'v option \<times> nat"

fun order_loop ::
  "('v option \<Rightarrow> 'v option \<Rightarrow> int) \<Rightarrow> 'v option list \<Rightarrow> 'v order_state \<Rightarrow> 'v order_state" where
  "order_loop cmp [] st = st"
| "order_loop cmp (None # variants) st = order_loop cmp variants st"
| "order_loop cmp (Some variant # variants) (order, prevVariant, index) =
     (let index' = (if prevVariant \<noteq> None \<and> cmp prevVariant (Some variant) \<noteq> 0
                    then index + 1 else index)
      in order_loop cmp variants (order(Some variant \<mapsto> index'), Some variant, index'))"

text \<open>
  The body of \<open>getVariantOrder\<close> after its first statement: \<open>variants\<close> is sorted, the
  loop runs from an empty \<open>order\<close>, an undefined \<open>prevVariant\<close> and \<open>index\<close> 0, and
  \<open>order\<close> is returned.
\<close>

definition orderVariants ::
  "('v option \<Rightarrow> 'v option \<Rightarrow> int) \<Rightarrow> 'v option list \<Rightarrow> ('v option \<rightharpoonup> nat)" where
  "orderVariants cmp variants =
     fst (order_loop cmp (js_sort cmp variants) (Map.empty, None, 0))"

text \<open>
  The group indices as the specification words them, for a sequence of variants without
  \<open>null\<close>: the first gets 0, each later one the index of its predecessor when the
  comparison with it is 0, and that index plus one otherwise.
\<close>

fun assign_from :: "('v option \<Rightarrow> 'v option \<Rightarrow> int) \<Rightarrow> 'v \<Rightarrow> nat \<Rightarrow> 'v list \<Rightarrow> nat list" where
  "assign_from cmp prev i [] = []"
| "assign_from cmp prev i (v # vs) =
     (let i' = (if cmp (Some prev) (Some v) = 0 then i else i + 1)
      in i' # assign_from cmp v i' vs)"

fun group_indices :: "('v option \<Rightarrow> 'v option \<Rightarrow> int) \<Rightarrow> 'v list \<Rightarrow> nat list" where
  "group_indices cmp [] = []"
| "group_indices cmp (v # vs) = 0 # assign_from cmp v 0 vs"

text \<open>The variants of an array, its \<open>null\<close> entries left out.\<close>

definition non_null :: "'v option list \<Rightarrow> 'v list" where
  "non_null xs = List.map_filter (\<lambda>x. x) xs"

text \<open>\<open>order.set(v, i)\<close> for each pair of a list, from left to right.\<close>

definition record_all :: "('v \<times> nat) list \<Rightarrow> ('v option \<rightharpoonup> nat) \<Rightarrow> ('v option \<rightharpoonup> nat)" where
  "record_all ps m = fold (\<lambda>(v, i) m. m(Some v \<mapsto> i)) ps m"

text \<open>
  A consistent comparison function: every value is equivalent to itself, swapping the
  arguments swaps the sign, and "not after" is transitive.
\<close>

definition consistent_comparator :: "('a \<Rightarrow> 'a \<Rightarrow> int) \<Rightarrow> bool" where
  "consistent_comparator cmp \<longleftrightarrow>
     (\<forall>a. cmp a a = 0) \<and> (\<forall>a b. (cmp a b < 0) = (cmp b a > 0)) \<and>
     (\<forall>a b c. cmp a b \<le> 0 \<and> cmp b c \<le> 0 \<longrightarrow> cmp a c \<le> 0)"

text \<open>
  An example comparator for the concrete instances below: variants are numbers ranked by
  their tens, and \<open>null\<close> comes before every variant.
\<close>

definition tier_compare :: "nat option \<Rightarrow> nat option \<Rightarrow> int" where
  "tier_compare a z = (case (a, z) of
       (None, None) \<Rightarrow> 0 | (None, Some _) \<Rightarrow> - 1 | (Some _, None) \<Rightarrow> 1
     | (Some x, Some y) \<Rightarrow> (if x div 10 < y div 10 then - 1 else if y div 10 < x div 10 then 1 else 0))"


text \<open>
  What holds of the loop's state after a sorted prefix \<open>xs\<close> of the array: \<open>null\<close> is
  no key, the keys are the variants of \<open>xs\<close> with indices up to the current one, the
  previous variant has the current index, equivalent variants have equal indices, and a
  variant that compares below another has a smaller index.
\<close>

definition order_inv ::
  "('v option \<Rightarrow> 'v option \<Rightarrow> int) \<Rightarrow> 'v option list \<Rightarrow> 'v order_state \<Rightarrow> bool" where
  "order_inv cmp xs st \<longleftrightarrow> (case st of (M, prev, i) \<Rightarrow>
     M None = None \<and>
     (\<forall>v. Some v \<in> set xs \<longrightarrow> (\<exists>n. M (Some v) = Some n \<and> n \<le> i)) \<and>
     (\<forall>v. Some v \<notin> set xs \<longrightarrow> M (Some v) = None) \<and>
     (case prev of None \<Rightarrow> \<forall>x \<in> set xs. x = None
      | Some p \<Rightarrow> Some p \<in> set xs \<and> M (Some p) = Some i) \<and>
     (\<forall>v w. Some v \<in> set xs \<and> Some w \<in> set xs \<longrightarrow>
        (cmp (Some v) (Some w) = 0 \<longrightarrow> M (Some v) = M (Some w)) \<and>
        (cmp (Some v) (Some w) < 0 \<longrightarrow> the (M (Some v)) < the (M (Some w)))))"

section \<open>The design system and its caches\<close>

text \<open>An exception raised by a collaborator.\<close>

datatype thrown = Thrown

text \<open>
  The invocations of collaborators, recorded in the order they happen. The record is not
  part of the source; it is what a call-counting stub of the collaborators would observe.
\<close>

datatype ('c, 'n) call =
    CallParseCandidate jsstring
  | CallParseVariant jsstring
  | CallCompileAstNodes 'c
  | CallSubstituteFunctions "'n list"
  | CallMarkUsedVariable jsstring

text \<open>
  The collaborators that \<open>buildDesignSystem\<close> imports from other modules. Candidate,
  variant and node values stand for the objects themselves, so equality on them is object
  identity. A collaborator may read and change a world of its own (the theme's
  bookkeeping, the objects it allocates), so it can answer two invocations with two
  different objects; it does not reach back into the caches below.
  \<open>ext_compileAstNodes\<close> returns the entries of which \<open>ext_node\<close> is the \<open>node\<close> field,
  and \<open>ext_substituteFunctions\<close> changes nodes in place (in the world) or throws.
\<close>

record ('c, 'v, 'e, 'n, 'w) collaborators =
  ext_parseCandidate :: "jsstring \<Rightarrow> 'w \<Rightarrow> 'c list \<times> 'w"
  ext_parseVariant :: "jsstring \<Rightarrow> 'w \<Rightarrow> 'v option \<times> 'w"
  ext_compileAstNodes :: "'c \<Rightarrow> 'w \<Rightarrow> 'e list \<times> 'w"
  ext_node :: "'e \<Rightarrow> 'n"
  ext_substituteFunctions :: "'n list \<Rightarrow> 'w \<Rightarrow> (thrown + unit) \<times> 'w"
  ext_markUsedVariable :: "jsstring \<Rightarrow> 'w \<Rightarrow> 'w"

text \<open>
  What a cache's factory acts on: the arrays made by \<open>Array.from\<close> (an array's identity
  is its position here), the collaborators' world and the record of calls.
\<close>

record ('c, 'n, 'w) env =
  arrays :: "'c list list"
  world :: 'w
  calls :: "('c, 'n) call list"

text \<open>
  The four caches of \<open>buildDesignSystem\<close>, each with its entries in insertion order.
  \<open>parsedCandidates\<close> holds the identity of the array that \<open>Array.from\<close> made.
\<close>

record ('c, 'v, 'e, 'n, 'w) design_system =
  parsedVariants :: "(jsstring \<times> 'v option) list"
  parsedCandidates :: "(jsstring \<times> nat) list"
  compiledAstNodes :: "('c \<times> 'e list) list"
  trackedVariables :: "(jsstring \<times> bool) list"
  env :: "('c, 'n, 'w) env"

text \<open>
  Modelled from the spec: \<open>DefaultMap\<close> (\<open>./utils/default-map\<close>) is not among the source
  files. On the first request for a key the factory is invoked, its result is stored
  under the key and returned; on a repeated request the stored result is returned and
  the factory is not invoked.
\<close>

definition default_map_get ::
  "('k \<Rightarrow> 's \<Rightarrow> 'a \<times> 's) \<Rightarrow> 'k \<Rightarrow> ('k \<times> 'a) list \<Rightarrow> 's \<Rightarrow> 'a \<times> ('k \<times> 'a) list \<times> 's" where
  "default_map_get factory key entries s =
     (case map_of entries key of
        Some value \<Rightarrow> (value, entries, s)
      | None \<Rightarrow> (let (value, s') = factory key s in (value, entries @ [(key, value)], s')))"

text \<open>The factories given to the four caches.\<close>

definition parsedVariants_factory ::
  "('c, 'v, 'e, 'n, 'w) collaborators \<Rightarrow> jsstring \<Rightarrow> ('c, 'n, 'w) env \<Rightarrow> 'v option \<times> ('c, 'n, 'w) env" where
  "parsedVariants_factory cs variant e =
     (let (v, w') = ext_parseVariant cs variant (world e)
      in (v, e\<lparr>world := w', calls := calls e @ [CallParseVariant variant]\<rparr>))"

definition parsedCandidates_factory ::
  "('c, 'v, 'e, 'n, 'w) collaborators \<Rightarrow> jsstring \<Rightarrow> ('c, 'n, 'w) env \<Rightarrow> nat \<times> ('c, 'n, 'w) env" where
  "parsedCandidates_factory cs candidate e =
     (let (parsed, w') = ext_parseCandidate cs candidate (world e)
      in (length (arrays e),
          e\<lparr>arrays := arrays e @ [parsed], world := w',
            calls := calls e @ [CallParseCandidate candidate]\<rparr>))"

definition compiledAstNodes_factory ::
  "('c, 'v, 'e, 'n, 'w) collaborators \<Rightarrow> 'c \<Rightarrow> ('c, 'n, 'w) env \<Rightarrow> 'e list \<times> ('c, 'n, 'w) env" where
  "compiledAstNodes_factory cs candidate e =
     (let (ast, w1) = ext_compileAstNodes cs candidate (world e);
          nodes = map (ext_node cs) ast;
          (outcome, w2) = ext_substituteFunctions cs nodes w1;
          e' = e\<lparr>world := w2,
                 calls := calls e @ [CallCompileAstNodes candidate, CallSubstituteFunctions nodes]\<rparr>
      in case outcome of
           Inl err \<Rightarrow> ([], e')
         | Inr _ \<Rightarrow> (ast, e'))"

text \<open>The methods \<open>parseCandidate\<close>, \<open>parseVariant\<close> and \<open>compileAstNodes\<close>.\<close>

definition parseCandidate ::
  "('c, 'v, 'e, 'n, 'w) collaborators \<Rightarrow> jsstring \<Rightarrow> ('c, 'v, 'e, 'n, 'w) design_system
   \<Rightarrow> nat \<times> ('c, 'v, 'e, 'n, 'w) design_system" where
  "parseCandidate cs candidate ds =
     (let (r, entries, e) = default_map_get (parsedCandidates_factory cs) candidate
                                            (parsedCandidates ds) (env ds)
      in (r, ds\<lparr>parsedCandidates := entries, env := e\<rparr>))"

definition parseVariant ::
  "('c, 'v, 'e, 'n, 'w) collaborators \<Rightarrow> jsstring \<Rightarrow> ('c, 'v, 'e, 'n, 'w) design_system
   \<Rightarrow> 'v option \<times> ('c, 'v, 'e, 'n, 'w) design_system" where
  "parseVariant cs variant ds =
     (let (r, entries, e) = default_map_get (parsedVariants_factory cs) variant
                                            (parsedVariants ds) (env ds)
      in (r, ds\<lparr>parsedVariants := entries, env := e\<rparr>))"

definition compileAstNodes ::
  "('c, 'v, 'e, 'n, 'w) collaborators \<Rightarrow> 'c \<Rightarrow> ('c, 'v, 'e, 'n, 'w) design_system
   \<Rightarrow> 'e list \<times> ('c, 'v, 'e, 'n, 'w) design_system" where
  "compileAstNodes cs candidate ds =
     (let (r, entries, e) = default_map_get (compiledAstNodes_factory cs) candidate
                                            (compiledAstNodes ds) (env ds)
      in (r, ds\<lparr>compiledAstNodes := entries, env := e\<rparr>))"

text \<open>
  The method \<open>getVariantOrder\<close>: \<open>Array.from(parsedVariants.values())\<close> is the list of
  the cached values in insertion order.
\<close>

definition getVariantOrder ::
  "('v option \<Rightarrow> 'v option \<Rightarrow> int) \<Rightarrow> ('c, 'v, 'e, 'n, 'w) design_system
   \<Rightarrow> ('v option \<rightharpoonup> nat)" where
  "getVariantOrder cmp ds = orderVariants cmp (map snd (parsedVariants ds))"

section \<open>Used-variable tracking\<close>

text \<open>
  Modelled from the spec: the value tokenizer (\<open>./value-parser\<close>) is not among the source
  files. Its token tree has words, separators and function calls with their argument
  tokens.
\<close>

datatype value_node =
    ValueWord jsstring
  | ValueSeparator jsstring
  | ValueFunction jsstring "value_node list"

text \<open>
  Modelled from the spec: \<open>walk(tree, visitor)\<close> visits the tokens in order, each
  function call before its arguments, and does not descend into the arguments of a call
  for which the visitor returns the skip signal. A visitor that returns nothing continues.
\<close>

datatype walk_action = Continue | Skip

fun walk :: "(value_node \<Rightarrow> 's \<Rightarrow> walk_action \<times> 's) \<Rightarrow> value_node list \<Rightarrow> 's \<Rightarrow> 's" where
  "walk visit [] s = s"
| "walk visit (ValueFunction name nodes # rest) s =
     (case visit (ValueFunction name nodes) s of
        (Skip, s') \<Rightarrow> walk visit rest s'
      | (Continue, s') \<Rightarrow> walk visit rest (walk visit nodes s'))"
| "walk visit (ValueWord v # rest) s = walk visit rest (snd (visit (ValueWord v) s))"
| "walk visit (ValueSeparator v # rest) s = walk visit rest (snd (visit (ValueSeparator v) s))"

text \<open>
  Modelled from the spec: \<open>parse(raw)\<close> tokenizes a generic CSS value. A run of
  separator characters (colon, comma, equals, angle brackets, newline, slash, space, tab)
  is one separator token; an opening parenthesis starts a function call named by the
  word before it and a closing parenthesis ends it; any other run of characters is a
  word. Calls left open at the end of the input are closed there.
\<close>

definition separator_char :: "jschar \<Rightarrow> bool" where
  "separator_char c \<longleftrightarrow> c \<in> set [0x3A, 0x2C, 0x3D, 0x3E, 0x3C, 0x0A, 0x2F, 0x20, 0x09]"

definition flush_word :: "jsstring \<Rightarrow> value_node list \<Rightarrow> value_node list" where
  "flush_word buffer nodes = (if buffer = [] then nodes else nodes @ [ValueWord buffer])"

definition flush_separator :: "jsstring \<Rightarrow> value_node list \<Rightarrow> value_node list" where
  "flush_separator sep nodes = (if sep = [] then nodes else nodes @ [ValueSeparator sep])"

fun close_all :: "value_node list \<Rightarrow> (jsstring \<times> value_node list) list \<Rightarrow> value_node list" where
  "close_all nodes [] = nodes"
| "close_all nodes ((name, parent) # stack) = close_all (parent @ [ValueFunction name nodes]) stack"

fun parse_loop ::
  "jsstring \<Rightarrow> jsstring \<Rightarrow> jsstring \<Rightarrow> value_node list \<Rightarrow> (jsstring \<times> value_node list) list
   \<Rightarrow> value_node list" where
  "parse_loop [] buffer sep nodes stack =
     close_all (flush_word buffer (flush_separator sep nodes)) stack"
| "parse_loop (c # input) buffer sep nodes stack =
     (if separator_char c then parse_loop input [] (sep @ [c]) (flush_word buffer nodes) stack
      else if c = 0x28 then
        parse_loop input [] [] [] ((buffer, flush_separator sep nodes) # stack)
      else if c = 0x29 then
        (case stack of
           [] \<Rightarrow> parse_loop input [] [] (flush_word buffer (flush_separator sep nodes)) []
         | (name, parent) # stack' \<Rightarrow>
             parse_loop input [] []
               (parent @ [ValueFunction name (flush_word buffer (flush_separator sep nodes))]) stack')
      else parse_loop input (buffer @ [c]) [] (flush_separator sep nodes) stack)"

definition parse :: "jsstring \<Rightarrow> value_node list" where
  "parse raw = parse_loop raw [] [] [] []"

text \<open>
  The inner visitor of \<open>trackUsedVariables\<close>: a word whose first two characters are
  dashes is reported to \<open>theme.markUsedVariable\<close>.
\<close>

definition mark_visitor ::
  "('c, 'v, 'e, 'n, 'w) collaborators \<Rightarrow> value_node \<Rightarrow> ('c, 'n, 'w) env
   \<Rightarrow> walk_action \<times> ('c, 'n, 'w) env" where
  "mark_visitor cs child e =
     (case child of
        ValueWord (a # b # rest) \<Rightarrow>
          if a \<noteq> 0x2D \<or> b \<noteq> 0x2D then (Continue, e)
          else (Continue,
                e\<lparr>world := ext_markUsedVariable cs (a # b # rest) (world e),
                  calls := calls e @ [CallMarkUsedVariable (a # b # rest)]\<rparr>)
      | _ \<Rightarrow> (Continue, e))"

text \<open>
  The outer visitor: for a call of \<open>var\<close> it walks the call's arguments with the inner
  visitor and returns the skip signal.
\<close>

definition var_visitor ::
  "('c, 'v, 'e, 'n, 'w) collaborators \<Rightarrow> value_node \<Rightarrow> ('c, 'n, 'w) env
   \<Rightarrow> walk_action \<times> ('c, 'n, 'w) env" where
  "var_visitor cs node e =
     (case node of
        ValueFunction name nodes \<Rightarrow>
          if name \<noteq> js ''var'' then (Continue, e)
          else (Skip, walk (mark_visitor cs) nodes e)
      | _ \<Rightarrow> (Continue, e))"

definition trackUsedVariables_factory ::
  "('c, 'v, 'e, 'n, 'w) collaborators \<Rightarrow> jsstring \<Rightarrow> ('c, 'n, 'w) env \<Rightarrow> bool \<times> ('c, 'n, 'w) env" where
  "trackUsedVariables_factory cs raw e = (True, walk (var_visitor cs) (parse raw) e)"

text \<open>The method \<open>trackUsedVariables\<close>; it returns nothing.\<close>

definition trackUsedVariables ::
  "('c, 'v, 'e, 'n, 'w) collaborators \<Rightarrow> jsstring \<Rightarrow> ('c, 'v, 'e, 'n, 'w) design_system
   \<Rightarrow> ('c, 'v, 'e, 'n, 'w) design_system" where
  "trackUsedVariables cs raw ds =
     (let (r, entries, e) = default_map_get (trackUsedVariables_factory cs) raw
                                            (trackedVariables ds) (env ds)
      in ds\<lparr>trackedVariables := entries, env := e\<rparr>)"

text \<open>A design system as \<open>buildDesignSystem\<close> returns it: all caches empty.\<close>

definition buildDesignSystem :: "'w \<Rightarrow> ('c, 'v, 'e, 'n, 'w) design_system" where
  "buildDesignSystem w =
     \<lparr>parsedVariants = [], parsedCandidates = [], compiledAstNodes = [], trackedVariables = [],
      env = \<lparr>arrays = [], world = w, calls = []\<rparr>\<rparr>"

text \<open>
  The cache-filling methods as operations, so that statements can range over every
  sequence of calls made on one design system.
\<close>

datatype 'c operation =
    OpParseCandidate jsstring
  | OpParseVariant jsstring
  | OpCompileAstNodes 'c
  | OpTrackUsedVariables jsstring

fun perform ::
  "('c, 'v, 'e, 'n, 'w) collaborators \<Rightarrow> 'c operation \<Rightarrow> ('c, 'v, 'e, 'n, 'w) design_system
   \<Rightarrow> ('c, 'v, 'e, 'n, 'w) design_system" where
  "perform cs (OpParseCandidate s) ds = snd (parseCandidate cs s ds)"
| "perform cs (OpParseVariant s) ds = snd (parseVariant cs s ds)"
| "perform cs (OpCompileAstNodes c) ds = snd (compileAstNodes cs c ds)"
| "perform cs (OpTrackUsedVariables raw) ds = trackUsedVariables cs raw ds"

definition run ::
  "('c, 'v, 'e, 'n, 'w) collaborators \<Rightarrow> 'c operation list \<Rightarrow> ('c, 'v, 'e, 'n, 'w) design_system
   \<Rightarrow> ('c, 'v, 'e, 'n, 'w) design_system" where
  "run cs ops ds = fold (perform cs) ops ds"

text \<open>
  Example collaborators for the concrete instances below. The world is a counter; both
  parsers answer each invocation with a new object (the counter's value), and function
  substitution throws when a node is odd.
\<close>

definition demo_collaborators :: "(nat, nat, nat, nat, nat) collaborators" where
  "demo_collaborators =
     \<lparr>ext_parseCandidate = (\<lambda>s w. (if s = js ''flex'' then [w] else [], w + 1)),
      ext_parseVariant = (\<lambda>s w. (if s = js ''hover'' then Some w else None, w + 1)),
      ext_compileAstNodes = (\<lambda>c w. ([c], w)),
      ext_node = (\<lambda>e. e),
      ext_substituteFunctions = (\<lambda>nodes w. (if list_ex odd nodes then Inl Thrown else Inr (), w)),
      ext_markUsedVariable = (\<lambda>name w. w)\<rparr>"

text \<open>
  Call-counting collaborators for the concrete instance of compilation below: the world
  is a counter that the compiler raises by 1 and the substitution by 10.
\<close>

definition counting_collaborators :: "(nat, nat, nat, nat, nat) collaborators" where
  "counting_collaborators =
     \<lparr>ext_parseCandidate = (\<lambda>s w. ([], w)),
      ext_parseVariant = (\<lambda>s w. (None, w)),
      ext_compileAstNodes = (\<lambda>c w. ([c, c + 1], w + 1)),
      ext_node = (\<lambda>e. e),
      ext_substituteFunctions = (\<lambda>nodes w. (Inr (), w + 10)),
      ext_markUsedVariable = (\<lambda>name w. w)\<rparr>"

text \<open>
  In a design system reached from a new one, a collaborator has been invoked for a key
  exactly when the key is in the cache, and then once.
\<close>

definition cache_inv :: "('c, 'v, 'e, 'n, 'w) design_system \<Rightarrow> bool" where
  "cache_inv ds \<longleftrightarrow>
     (\<forall>s. count_list (calls (env ds)) (CallParseCandidate s)
           = (if map_of (parsedCandidates ds) s = None then 0 else 1)) \<and>
     (\<forall>s. count_list (calls (env ds)) (CallParseVariant s)
           = (if map_of (parsedVariants ds) s = None then 0 else 1)) \<and>
     (\<forall>c. count_list (calls (env ds)) (CallCompileAstNodes c)
           = (if map_of (compiledAstNodes ds) c = None then 0 else 1))"

text \<open>
  The second environment differs from the first only by calls of
  \<open>theme.markUsedVariable\<close>.
\<close>

definition only_marks :: "('c, 'n, 'w) env \<Rightarrow> ('c, 'n, 'w) env \<Rightarrow> bool" where
  "only_marks e e' \<longleftrightarrow>
     (\<exists>ms. calls e' = calls e @ map CallMarkUsedVariable ms) \<and> arrays e' = arrays e"

definition demo_system :: "(nat, nat, nat, nat, nat) design_system" where
  "demo_system = buildDesignSystem 0"

text \<open>
  An example design system whose variant cache holds four variants and one \<open>null\<close>.
\<close>

definition tier_system :: "(nat, nat, nat, nat, nat) design_system" where
  "tier_system = demo_system\<lparr>parsedVariants :=
     [(js ''md'', Some 10), (js ''nope'', None), (js ''lg'', Some 11), (js ''hover'', Some 5),
      (js ''dark'', Some 20)]\<rparr>"

section \<open>Batch compilation\<close>

text \<open>The callback handed to \<open>compileCandidates\<close>: it sets \<open>wasInvalid\<close>.\<close>

definition onInvalidCandidate :: "bool \<Rightarrow> bool" where
  "onInvalidCandidate wasInvalid = True"

text \<open>
  One iteration of the loop of \<open>candidatesToCss\<close>. \<open>compileCandidates\<close>, \<open>optimizeAst\<close>
  and \<open>toCss\<close> are collaborators defined outside this file, so they are parameters. The
  first two receive the design system and may change it: \<open>'s\<close> is its state.
  \<open>compileCandidates\<close> returns its \<open>astNodes\<close> and the number of times it invoked
  the callback.
\<close>

definition candidateToCss ::
  "(jsstring list \<Rightarrow> 's \<Rightarrow> ('a list \<times> nat) \<times> 's) \<Rightarrow> ('a list \<Rightarrow> 's \<Rightarrow> 'a list \<times> 's)
   \<Rightarrow> ('a list \<Rightarrow> jsstring) \<Rightarrow> jsstring \<Rightarrow> 's \<Rightarrow> jsstring option \<times> 's" where
  "candidateToCss compileCandidates optimizeAst toCss className s =
     (let wasInvalid = False;
          ((astNodes, fired), s1) = compileCandidates [className] s;
          wasInvalid = (onInvalidCandidate ^^ fired) wasInvalid;
          (astNodes, s2) = optimizeAst astNodes s1
      in (if length astNodes = 0 \<or> wasInvalid then None else Some (toCss astNodes), s2))"

text \<open>The loop over the class names, with \<open>result\<close> as accumulator.\<close>

fun candidatesToCss_loop ::
  "(jsstring list \<Rightarrow> 's \<Rightarrow> ('a list \<times> nat) \<times> 's) \<Rightarrow> ('a list \<Rightarrow> 's \<Rightarrow> 'a list \<times> 's)
   \<Rightarrow> ('a list \<Rightarrow> jsstring) \<Rightarrow> jsstring list \<Rightarrow> jsstring option list \<Rightarrow> 's
   \<Rightarrow> jsstring option list \<times> 's" where
  "candidatesToCss_loop compileCandidates optimizeAst toCss [] result s = (result, s)"
| "candidatesToCss_loop compileCandidates optimizeAst toCss (className # classes) result s =
     (let (entry, s') = candidateToCss compileCandidates optimizeAst toCss className s
      in candidatesToCss_loop compileCandidates optimizeAst toCss classes (result @ [entry]) s')"

definition candidatesToCss ::
  "(jsstring list \<Rightarrow> 's \<Rightarrow> ('a list \<times> nat) \<times> 's) \<Rightarrow> ('a list \<Rightarrow> 's \<Rightarrow> 'a list \<times> 's)
   \<Rightarrow> ('a list \<Rightarrow> jsstring) \<Rightarrow> jsstring list \<Rightarrow> 's \<Rightarrow> jsstring option list \<times> 's" where
  "candidatesToCss compileCandidates optimizeAst toCss classes s =
     candidatesToCss_loop compileCandidates optimizeAst toCss classes [] s"

text \<open>The state in which the class name at position \<open>i\<close> is compiled.\<close>

definition state_before ::
  "(jsstring list \<Rightarrow> 's \<Rightarrow> ('a list \<times> nat) \<times> 's) \<Rightarrow> ('a list \<Rightarrow> 's \<Rightarrow> 'a list \<times> 's)
   \<Rightarrow> ('a list \<Rightarrow> jsstring) \<Rightarrow> jsstring list \<Rightarrow> 's \<Rightarrow> nat \<Rightarrow> 's" where
  "state_before cc opt css classes s i = snd (candidatesToCss cc opt css (take i classes) s)"

text \<open>
  Example collaborators for the concrete instance below: two known class names, everything
  else reported through the callback.
\<close>

definition demo_compileCandidates :: "jsstring list \<Rightarrow> nat \<Rightarrow> (nat list \<times> nat) \<times> nat" where
  "demo_compileCandidates classes s =
     (if classes = [js ''flex''] then ([1], 0)
      else if classes = [js ''underline''] then ([2], 0)
      else ([], length classes), s + 1)"

definition demo_optimizeAst :: "nat list \<Rightarrow> nat \<Rightarrow> nat list \<times> nat" where
  "demo_optimizeAst nodes s = (nodes, s)"

definition demo_toCss :: "nat list \<Rightarrow> jsstring" where
  "demo_toCss nodes =
     concat (map (\<lambda>n. if n = 1 then js ''.flex{display:flex}''
                       else js ''.underline{text-decoration-line:underline}'') nodes)"

section \<open>Properties of theme value resolution\<close>

subsection \<open>Facts about the string built-ins\<close>

lemma lastIndexOf_aux_absent: "c \<notin> set xs \<Longrightarrow> lastIndexOf_aux xs c i found = found"
  by (induction xs arbitrary: i found) auto

lemma lastIndexOf_aux_last:
  "c \<notin> set post \<Longrightarrow> lastIndexOf_aux (pre @ c # post) c i found = i + int (length pre)"
  by (induction pre arbitrary: i found) (auto simp: lastIndexOf_aux_absent)

lemma lastIndexOf_absent: "c \<notin> set s \<Longrightarrow> lastIndexOf s c = - 1"
  by (simp add: lastIndexOf_def lastIndexOf_aux_absent)

lemma lastIndexOf_last: "c \<notin> set post \<Longrightarrow> lastIndexOf (pre @ c # post) c = int (length pre)"
  by (simp add: lastIndexOf_def lastIndexOf_aux_last)

lemma js_slice_prefix: "js_slice (pre @ c # post) 0 (Some (int (length pre))) = pre"
  by (simp add: js_slice_def Let_def)

lemma js_slice_suffix: "js_slice (pre @ c # post) (int (length pre) + 1) None = post"
  by (simp add: js_slice_def Let_def nat_add_distrib)

lemma extractModifier_slash:
  "slash \<notin> set post \<Longrightarrow>
   extractModifier (pre @ slash # post) = (js_trim pre, Some (js_trim post))"
  by (simp add: extractModifier_def Let_def lastIndexOf_last js_slice_prefix js_slice_suffix)

lemma extractModifier_no_slash: "slash \<notin> set path \<Longrightarrow> extractModifier path = (path, None)"
  by (simp add: extractModifier_def Let_def lastIndexOf_absent)

lemma js_trim_all_whitespace: "\<forall>c \<in> set s. js_whitespace c \<Longrightarrow> js_trim s = []"
  unfolding js_trim_def by (auto dest: set_dropWhileD)

lemmas resolve_eval =
  extractModifier_def lastIndexOf_def js_def slash_def js_slice_def js_trim_def
  js_whitespace_def resolveThemeValue_def demo_theme_def demo_withAlpha_def Let_def

text \<open>
  Claim C6, as amended. Let \<open>(p, m)\<close> be the lookup path and the modifier that
  \<open>resolveThemeValue\<close> extracts from \<open>path\<close>. Without a slash, \<open>p\<close> is the whole
  string and there is no modifier; with a last slash, \<open>p\<close> is the trimmed text before it
  and \<open>m\<close> the trimmed text after it. The result is \<open>undefined\<close> when the theme has no
  string for \<open>p\<close>, whatever the modifier; it is \<open>withAlpha v a\<close> when the theme value
  \<open>v\<close> and the modifier \<open>a\<close> are both non-empty; in every other case it is the theme
  value unchanged.
\<close>

theorem resolveThemeValue_cases:
  assumes "extractModifier path = (p, m)"
  shows "(slash \<notin> set path \<longrightarrow> p = path \<and> m = None)
    \<and> (\<forall>pre post. path = pre @ slash # post \<and> slash \<notin> set post \<longrightarrow>
            p = js_trim pre \<and> m = Some (js_trim post))
    \<and> ((\<forall>v. theme_get [p] \<noteq> JString v) \<longrightarrow>
            resolveThemeValue theme_get withAlpha path = JUndefined)
    \<and> (\<forall>v a. theme_get [p] = JString v \<and> m = Some a \<and> a \<noteq> [] \<and> v \<noteq> [] \<longrightarrow>
            resolveThemeValue theme_get withAlpha path = JString (withAlpha v a))
    \<and> (\<forall>v. theme_get [p] = JString v \<and> (m = None \<or> m = Some [] \<or> v = []) \<longrightarrow>
            resolveThemeValue theme_get withAlpha path = JString v)"
proof (intro conjI)
  show "slash \<notin> set path \<longrightarrow> p = path \<and> m = None"
    using assms by (auto simp: extractModifier_no_slash)
  show "\<forall>pre post. path = pre @ slash # post \<and> slash \<notin> set post \<longrightarrow>
            p = js_trim pre \<and> m = Some (js_trim post)"
    using assms by (auto simp: extractModifier_slash)
  show "(\<forall>v. theme_get [p] \<noteq> JString v) \<longrightarrow>
            resolveThemeValue theme_get withAlpha path = JUndefined"
    using assms
    by (cases "theme_get [p]") (auto simp: resolveThemeValue_def Let_def split: option.splits)
  show "\<forall>v a. theme_get [p] = JString v \<and> m = Some a \<and> a \<noteq> [] \<and> v \<noteq> [] \<longrightarrow>
            resolveThemeValue theme_get withAlpha path = JString (withAlpha v a)"
    using assms by (auto simp: resolveThemeValue_def Let_def)
  show "\<forall>v. theme_get [p] = JString v \<and> (m = None \<or> m = Some [] \<or> v = []) \<longrightarrow>
            resolveThemeValue theme_get withAlpha path = JString v"
    using assms by (auto simp: resolveThemeValue_def Let_def split: option.splits)
qed

theorem resolveThemeValue_cases_witness:
  "extractModifier (js ''--color-red-500 / 50%'') = (js ''--color-red-500'', Some (js ''50%''))
   \<and> demo_theme [js ''--color-red-500''] = JString (js ''red'')
   \<and> js ''50%'' \<noteq> [] \<and> js ''red'' \<noteq> []
   \<and> resolveThemeValue demo_theme demo_withAlpha (js ''--color-red-500 / 50%'')
       = JString (demo_withAlpha (js ''red'') (js ''50%''))"
proof -
  have e: "extractModifier (js ''--color-red-500 / 50%'')
           = (js ''--color-red-500'', Some (js ''50%''))"
    by (simp add: resolve_eval)
  have t: "demo_theme [js ''--color-red-500''] = JString (js ''red'')"
    by (simp add: demo_theme_def)
  have n: "js ''50%'' \<noteq> [] \<and> js ''red'' \<noteq> []"
    by (simp add: js_def)
  from resolveThemeValue_cases [OF e, of demo_theme demo_withAlpha] t n
  have "resolveThemeValue demo_theme demo_withAlpha (js ''--color-red-500 / 50%'')
        = JString (demo_withAlpha (js ''red'') (js ''50%''))"
    by blast
  with e t n show ?thesis by blast
qed

text \<open>
  Claim C6 as stated fails: in \<open>--color-red-500/\<close> a slash is present, so the modifier is
  the trimmed text after it (the empty string), and the theme has the value \<open>red\<close>; the
  result is \<open>red\<close> itself, not \<open>withAlpha\<close> of it.
\<close>

theorem resolveThemeValue_empty_modifier_counterexample:
  "extractModifier (js ''--color-red-500/'') = (js ''--color-red-500'', Some [])
   \<and> demo_theme [js ''--color-red-500''] = JString (js ''red'')
   \<and> resolveThemeValue demo_theme demo_withAlpha (js ''--color-red-500/'') = JString (js ''red'')
   \<and> resolveThemeValue demo_theme demo_withAlpha (js ''--color-red-500/'')
       \<noteq> JString (demo_withAlpha (js ''red'') [])"
  by (simp add: resolve_eval)

text \<open>
  Claim C9. When the text after the last slash is empty or all whitespace, the result is
  the theme's value for the trimmed text before the slash (\<open>null\<close> read as
  \<open>undefined\<close>); \<open>withAlpha\<close> plays no part in it.
\<close>

theorem resolveThemeValue_blank_modifier:
  assumes "slash \<notin> set post" and "\<forall>c \<in> set post. js_whitespace c"
  shows "resolveThemeValue theme_get withAlpha (pre @ slash # post)
         = nullish_undefined (theme_get [js_trim pre])"
proof -
  have "extractModifier (pre @ slash # post) = (js_trim pre, Some [])"
    using assms by (simp add: extractModifier_slash js_trim_all_whitespace)
  then show ?thesis
    by (cases "theme_get [js_trim pre]") (simp_all add: resolveThemeValue_def)
qed

theorem resolveThemeValue_blank_modifier_witness:
  "slash \<notin> set (js ''  '') \<and> list_all js_whitespace (js ''  '')
   \<and> resolveThemeValue demo_theme demo_withAlpha (js ''--color-red-500 '' @ slash # js ''  '')
       = JString (js ''red'')"
proof -
  have a: "slash \<notin> set (js ''  '')"
    by (simp add: js_def slash_def)
  have b: "\<forall>c \<in> set (js ''  ''). js_whitespace c"
    by (simp add: js_def js_whitespace_def)
  have "nullish_undefined (demo_theme [js_trim (js ''--color-red-500 '')]) = JString (js ''red'')"
    by (simp add: resolve_eval)
  with resolveThemeValue_blank_modifier [OF a b, of demo_theme demo_withAlpha "js ''--color-red-500 ''"]
  show ?thesis using a b by (simp add: list_all_iff)
qed

text \<open>
  Claim C10. \<open>resolveThemeValue\<close> never returns \<open>null\<close>; where the theme's \<open>get\<close>
  answers \<open>null\<close> for the lookup path, the result is \<open>undefined\<close>.
\<close>

theorem resolveThemeValue_never_null:
  "resolveThemeValue theme_get withAlpha path \<noteq> JNull
   \<and> (theme_get [fst (extractModifier path)] = JNull \<longrightarrow>
        resolveThemeValue theme_get withAlpha path = JUndefined)"
  by (cases "extractModifier path"; cases "theme_get [fst (extractModifier path)]")
     (auto simp: resolveThemeValue_def Let_def split: option.splits)

theorem resolveThemeValue_never_null_witness:
  "demo_theme [fst (extractModifier (js ''--color-red-400 / 50%''))] = JNull
   \<and> resolveThemeValue demo_theme demo_withAlpha (js ''--color-red-400 / 50%'') = JUndefined"
proof -
  have n: "demo_theme [fst (extractModifier (js ''--color-red-400 / 50%''))] = JNull"
    by (simp add: resolve_eval)
  with resolveThemeValue_never_null [of demo_theme demo_withAlpha "js ''--color-red-400 / 50%''"]
  show ?thesis by blast
qed

section \<open>Properties of the variant order\<close>

lemma mset_insert_by: "mset (insert_by cmp x xs) = add_mset x (mset xs)"
  by (induction xs) auto

lemma mset_js_sort: "mset (js_sort cmp xs) = mset xs"
  by (induction xs) (auto simp: js_sort_def mset_insert_by)

lemma set_insert_by: "set (insert_by cmp x xs) = insert x (set xs)"
  by (induction xs) auto

lemma sorted_insert_by:
  assumes "consistent_comparator cmp" "sorted_wrt (\<lambda>a b. cmp a b \<le> 0) xs"
  shows "sorted_wrt (\<lambda>a b. cmp a b \<le> 0) (insert_by cmp x xs)"
  using assms(2)
proof (induction xs)
  case Nil then show ?case by simp
next
  case (Cons y ys)
  have tot: "\<And>a b. \<not> cmp a b \<le> 0 \<Longrightarrow> cmp b a \<le> 0"
    using assms(1) unfolding consistent_comparator_def by (metis not_le order_less_imp_le)
  have tr: "\<And>a b c. cmp a b \<le> 0 \<Longrightarrow> cmp b c \<le> 0 \<Longrightarrow> cmp a c \<le> 0"
    using assms(1) unfolding consistent_comparator_def by blast
  show ?case
  proof (cases "cmp x y \<le> 0")
    case True
    then show ?thesis using Cons.prems tr by auto
  next
    case False
    then show ?thesis using Cons tot by (auto simp: set_insert_by)
  qed
qed

lemma sorted_js_sort:
  "consistent_comparator cmp \<Longrightarrow> sorted_wrt (\<lambda>a b. cmp a b \<le> 0) (js_sort cmp xs)"
  by (induction xs) (auto simp: js_sort_def sorted_insert_by)


lemma order_loop_append:
  "order_loop cmp (xs @ ys) st = order_loop cmp ys (order_loop cmp xs st)"
  by (induction cmp xs st rule: order_loop.induct) (auto simp: Let_def)

lemma order_inv_step:
  assumes cc: "consistent_comparator cmp"
    and inv: "order_inv cmp xs (M, prev, i)"
    and below: "\<forall>x \<in> set xs. cmp x (Some v) \<le> 0"
    and prev_max: "\<forall>p. prev = Some p \<longrightarrow> (\<forall>x \<in> set xs. x \<noteq> None \<longrightarrow> cmp x (Some p) \<le> 0)"
  shows "order_inv cmp (xs @ [Some v]) (order_loop cmp [Some v] (M, prev, i))"
proof -
  have refl: "\<And>a. cmp a a = 0"
    using cc by (simp add: consistent_comparator_def)
  have flip: "\<And>a b. (cmp a b < 0) = (cmp b a > 0)"
    using cc by (simp add: consistent_comparator_def)
  have trans: "\<And>a b c. cmp a b \<le> 0 \<Longrightarrow> cmp b c \<le> 0 \<Longrightarrow> cmp a c \<le> 0"
    using cc unfolding consistent_comparator_def by blast
  have sym0: "\<And>a b. cmp a b = 0 \<Longrightarrow> cmp b a = 0"
    using flip by (metis less_irrefl linorder_neqE_linordered_idom)
  have antisym: "\<And>a b. cmp a b \<le> 0 \<Longrightarrow> cmp b a \<le> 0 \<Longrightarrow> cmp a b = 0"
    using flip by (metis leD order_le_imp_less_or_eq)
  define i' where "i' = (if prev \<noteq> None \<and> cmp prev (Some v) \<noteq> 0 then i + 1 else i)"
  define M' where "M' = M(Some v \<mapsto> i')"
  have res: "order_loop cmp [Some v] (M, prev, i) = (M', Some v, i')"
    by (simp add: i'_def M'_def Let_def)
  have i_le: "i \<le> i'" by (simp add: i'_def)
  from inv have M_None: "M None = None"
    and M_in: "\<And>w. Some w \<in> set xs \<Longrightarrow> \<exists>n. M (Some w) = Some n \<and> n \<le> i"
    and M_out: "\<And>w. Some w \<notin> set xs \<Longrightarrow> M (Some w) = None"
    and M_eq: "\<And>u w. Some u \<in> set xs \<Longrightarrow> Some w \<in> set xs \<Longrightarrow> cmp (Some u) (Some w) = 0
                 \<Longrightarrow> M (Some u) = M (Some w)"
    and M_lt: "\<And>u w. Some u \<in> set xs \<Longrightarrow> Some w \<in> set xs \<Longrightarrow> cmp (Some u) (Some w) < 0
                 \<Longrightarrow> the (M (Some u)) < the (M (Some w))"
    by (auto simp: order_inv_def)
  from inv have prev_case:
    "(prev = None \<and> (\<forall>x \<in> set xs. x = None)) \<or>
     (\<exists>p. prev = Some p \<and> Some p \<in> set xs \<and> M (Some p) = Some i)"
    by (auto simp: order_inv_def split: option.splits)
  \<comment> \<open>an earlier variant equivalent to the new one has the new index\<close>
  have old_eq: "M (Some u) = Some i'" if u: "Some u \<in> set xs" and e: "cmp (Some u) (Some v) = 0" for u
  proof -
    from u prev_case obtain p where p: "prev = Some p" "Some p \<in> set xs" "M (Some p) = Some i"
      by auto
    have up: "cmp (Some u) (Some p) \<le> 0" using prev_max p u by auto
    have pv: "cmp (Some p) (Some v) \<le> 0" using below p by auto
    have vu: "cmp (Some v) (Some u) \<le> 0" using sym0 [OF e] by simp
    have pu: "cmp (Some p) (Some u) \<le> 0" using trans [OF pv vu] .
    have "cmp (Some u) (Some p) = 0" using antisym [OF up pu] .
    then have Mu: "M (Some u) = Some i" using M_eq [OF u p(2)] p(3) by simp
    have vp: "cmp (Some v) (Some p) \<le> 0" using trans [OF vu up] .
    have "cmp (Some p) (Some v) = 0" using antisym [OF pv vp] .
    then have "i' = i" by (simp add: i'_def p)
    with Mu show ?thesis by simp
  qed
  \<comment> \<open>an earlier variant strictly below the new one has a smaller index\<close>
  have old_lt: "the (M (Some u)) < i'" if u: "Some u \<in> set xs" and l: "cmp (Some u) (Some v) < 0" for u
  proof -
    from u prev_case obtain p where p: "prev = Some p" "Some p \<in> set xs" "M (Some p) = Some i"
      by auto
    obtain n where n: "M (Some u) = Some n" "n \<le> i" using M_in [OF u] by blast
    show ?thesis
    proof (cases "cmp (Some p) (Some v) = 0")
      case False
      then have "i' = i + 1" by (simp add: i'_def p)
      with n show ?thesis by simp
    next
      case True
      then have i': "i' = i" by (simp add: i'_def p)
      have up: "cmp (Some u) (Some p) \<le> 0" using prev_max p u by auto
      have "cmp (Some u) (Some p) \<noteq> 0"
      proof
        assume "cmp (Some u) (Some p) = 0"
        then have pu: "cmp (Some p) (Some u) \<le> 0" using sym0 by simp
        have vp: "cmp (Some v) (Some p) \<le> 0" using sym0 [OF True] by simp
        have "cmp (Some v) (Some u) \<le> 0" using trans [OF vp pu] .
        moreover have "cmp (Some v) (Some u) > 0" using l flip by simp
        ultimately show False by simp
      qed
      with up have "cmp (Some u) (Some p) < 0" by simp
      from M_lt [OF u p(2) this] p(3) i' show ?thesis by simp
    qed
  qed
  have not_above: "\<not> cmp (Some v) (Some u) < 0" if u: "Some u \<in> set xs" for u
  proof -
    have "cmp (Some u) (Some v) \<le> 0" using below u by auto
    then show ?thesis using flip [of "Some v" "Some u"] by simp
  qed
  have "order_inv cmp (xs @ [Some v]) (M', Some v, i')"
    unfolding order_inv_def
  proof (simp only: prod.case option.case, intro conjI allI impI)
    show "M' None = None" by (simp add: M'_def M_None)
  next
    fix w assume "Some w \<in> set (xs @ [Some v])"
    then show "\<exists>n. M' (Some w) = Some n \<and> n \<le> i'"
      using M_in [of w] i_le by (cases "w = v") (auto simp: M'_def)
  next
    fix w assume "Some w \<notin> set (xs @ [Some v])"
    then show "M' (Some w) = None" by (auto simp: M'_def M_out)
  next
    show "Some v \<in> set (xs @ [Some v])" by simp
  next
    show "M' (Some v) = Some i'" by (simp add: M'_def)
  next
    fix u w assume uw: "Some u \<in> set (xs @ [Some v]) \<and> Some w \<in> set (xs @ [Some v])"
      and e: "cmp (Some u) (Some w) = 0"
    show "M' (Some u) = M' (Some w)"
    proof (cases "u = v"; cases "w = v")
      assume "u \<noteq> v" "w \<noteq> v"
      then show ?thesis using uw e M_eq by (auto simp: M'_def)
    next
      assume "u \<noteq> v" "w = v"
      then show ?thesis using uw e old_eq [of u] by (auto simp: M'_def)
    next
      assume "u = v" "w \<noteq> v"
      then show ?thesis using uw sym0 [OF e] old_eq [of w] by (auto simp: M'_def)
    qed simp
  next
    fix u w assume uw: "Some u \<in> set (xs @ [Some v]) \<and> Some w \<in> set (xs @ [Some v])"
      and l: "cmp (Some u) (Some w) < 0"
    show "the (M' (Some u)) < the (M' (Some w))"
    proof (cases "u = v"; cases "w = v")
      assume "u \<noteq> v" "w \<noteq> v"
      then show ?thesis using uw l M_lt by (auto simp: M'_def)
    next
      assume "u \<noteq> v" "w = v"
      then show ?thesis using uw l old_lt [of u] by (auto simp: M'_def)
    next
      assume "u = v" "w \<noteq> v"
      then show ?thesis using uw l not_above [of w] by (auto simp: M'_def)
    next
      assume "u = v" "w = v"
      then show ?thesis using l refl [of "Some v"] by simp
    qed
  qed
  with res show ?thesis by simp
qed


lemma order_inv_skip_null:
  "order_inv cmp xs st \<Longrightarrow> order_inv cmp (xs @ [None]) st"
  by (cases st) (auto simp: order_inv_def split: option.splits)

lemma order_inv_loop:
  assumes cc: "consistent_comparator cmp"
  shows "sorted_wrt (\<lambda>a b. cmp a b \<le> 0) xs \<Longrightarrow>
         order_inv cmp xs (order_loop cmp xs (Map.empty, None, 0)) \<and>
         (\<forall>p. fst (snd (order_loop cmp xs (Map.empty, None, 0))) = Some p \<longrightarrow>
              (\<forall>x \<in> set xs. x \<noteq> None \<longrightarrow> cmp x (Some p) \<le> 0))"
proof (induction xs rule: rev_induct)
  case Nil
  show ?case by (simp add: order_inv_def)
next
  case (snoc x xs)
  from snoc.prems have sorted: "sorted_wrt (\<lambda>a b. cmp a b \<le> 0) xs"
    and below: "\<forall>y \<in> set xs. cmp y x \<le> 0"
    by (auto simp: sorted_wrt_append)
  obtain M prev i where st: "order_loop cmp xs (Map.empty, None, 0) = (M, prev, i)"
    by (cases "order_loop cmp xs (Map.empty, None, 0)") auto
  from snoc.IH [OF sorted] st have inv: "order_inv cmp xs (M, prev, i)"
    and prev_max: "\<forall>p. prev = Some p \<longrightarrow> (\<forall>y \<in> set xs. y \<noteq> None \<longrightarrow> cmp y (Some p) \<le> 0)"
    by auto
  show ?case
  proof (cases x)
    case None
    then show ?thesis
      using inv prev_max st by (auto simp: order_loop_append order_inv_skip_null)
  next
    case (Some v)
    have refl: "cmp (Some v) (Some v) = 0"
      using cc by (simp add: consistent_comparator_def)
    have "order_inv cmp (xs @ [Some v]) (order_loop cmp [Some v] (M, prev, i))"
      using order_inv_step [OF cc inv _ prev_max] below Some by simp
    moreover have "fst (snd (order_loop cmp [Some v] (M, prev, i))) = Some v"
      by (simp add: Let_def)
    ultimately show ?thesis
      using below Some refl st by (auto simp: order_loop_append)
  qed
qed

lemma set_js_sort: "set (js_sort cmp xs) = set xs"
  by (metis mset_js_sort set_mset_mset)

lemma non_null_simps:
  "non_null [] = []" "non_null (None # xs) = non_null xs" "non_null (Some v # xs) = v # non_null xs"
  by (simp_all add: non_null_def map_filter_simps)

lemma set_non_null: "set (non_null xs) = {v. Some v \<in> set xs}"
  by (induction xs) (auto simp: non_null_def map_filter_simps split: option.splits)

lemma order_loop_skip_null:
  "order_loop cmp xs st = order_loop cmp (map Some (non_null xs)) st"
  by (induction cmp xs st rule: order_loop.induct) (auto simp: non_null_simps Let_def)

lemma order_loop_assign_from:
  "order_loop cmp (map Some vs) (m, Some p, i) =
     (record_all (zip vs (assign_from cmp p i vs)) m, Some (last (p # vs)),
      last (i # assign_from cmp p i vs))"
  by (induction vs arbitrary: m p i) (auto simp: record_all_def Let_def)

lemma orderVariants_record_all:
  "orderVariants cmp cached =
     record_all (zip (non_null (js_sort cmp cached))
                     (group_indices cmp (non_null (js_sort cmp cached)))) Map.empty"
proof (cases "non_null (js_sort cmp cached)")
  case Nil
  then show ?thesis
    using order_loop_skip_null [of cmp "js_sort cmp cached" "(Map.empty, None, 0)"]
    by (simp add: orderVariants_def record_all_def)
next
  case (Cons v vs)
  then show ?thesis
    using order_loop_skip_null [of cmp "js_sort cmp cached" "(Map.empty, None, 0)"]
    by (simp add: orderVariants_def order_loop_assign_from record_all_def)
qed

lemma length_assign_from: "length (assign_from cmp p i vs) = length vs"
  by (induction vs arbitrary: p i) (auto simp: Let_def)

lemma length_group_indices: "length (group_indices cmp vs) = length vs"
  by (cases vs) (auto simp: length_assign_from)

lemma assign_from_nth:
  "k < length vs \<Longrightarrow>
   assign_from cmp p i vs ! k =
     (if cmp (Some ((p # vs) ! k)) (Some (vs ! k)) = 0
      then (i # assign_from cmp p i vs) ! k else (i # assign_from cmp p i vs) ! k + 1)"
proof (induction vs arbitrary: p i k)
  case Nil then show ?case by simp
next
  case (Cons v vs)
  show ?case
  proof (cases k)
    case 0 then show ?thesis by (simp add: Let_def)
  next
    case (Suc j)
    with Cons.prems have "j < length vs" by simp
    from Cons.IH [OF this] Suc show ?thesis by (simp add: Let_def)
  qed
qed

lemma group_indices_first: "vs \<noteq> [] \<Longrightarrow> group_indices cmp vs ! 0 = 0"
  by (cases vs) auto

lemma group_indices_next:
  assumes "Suc k < length vs"
  shows "group_indices cmp vs ! Suc k =
     (if cmp (Some (vs ! k)) (Some (vs ! Suc k)) = 0
      then group_indices cmp vs ! k else group_indices cmp vs ! k + 1)"
proof -
  from assms obtain v vs' where vs: "vs = v # vs'" by (cases vs) auto
  with assms have "k < length vs'" by simp
  from assign_from_nth [OF this, of cmp v 0] vs show ?thesis by simp
qed

lemma record_all_other:
  "x \<notin> Some ` fst ` set ps \<Longrightarrow> record_all ps m x = m x"
  by (induction ps arbitrary: m) (auto simp: record_all_def)

lemma record_all_dom: "dom (record_all ps m) = dom m \<union> Some ` fst ` set ps"
  by (induction ps arbitrary: m) (auto simp: record_all_def)

lemma record_all_last:
  "length is = length ks \<Longrightarrow> k < length ks \<Longrightarrow>
   (\<forall>j. k < j \<and> j < length ks \<longrightarrow> ks ! j \<noteq> ks ! k) \<Longrightarrow>
   record_all (zip ks is) m (Some (ks ! k)) = Some (is ! k)"
proof (induction ks arbitrary: "is" k m)
  case Nil then show ?case by simp
next
  case (Cons a ks)
  then obtain b is' where is': "is = b # is'" by (cases "is") auto
  show ?case
  proof (cases k)
    case 0
    have "a \<notin> set ks"
    proof
      assume "a \<in> set ks"
      then obtain j where "j < length ks" "ks ! j = a" by (auto simp: in_set_conv_nth)
      with Cons.prems(3) 0 show False by (auto dest: spec [of _ "Suc j"])
    qed
    then have "Some a \<notin> Some ` fst ` set (zip ks is')"
      by (auto dest: set_zip_leftD)
    from record_all_other [OF this] 0 is' show ?thesis
      by (simp add: record_all_def)
  next
    case (Suc j)
    have "record_all (zip ks is') (m(Some a \<mapsto> b)) (Some (ks ! j)) = Some (is' ! j)"
    proof (rule Cons.IH)
      show "length is' = length ks" using Cons.prems(1) is' by simp
      show "j < length ks" using Cons.prems(2) Suc by simp
      show "\<forall>l. j < l \<and> l < length ks \<longrightarrow> ks ! l \<noteq> ks ! j"
        using Cons.prems(3) Suc by (auto dest: spec [of _ "Suc l" for l])
    qed
    with Suc is' show ?thesis by (simp add: record_all_def)
  qed
qed


lemma group_indices_equivalent:
  assumes cc: "consistent_comparator cmp"
    and sorted: "sorted_wrt (\<lambda>a z. cmp (Some a) (Some z) \<le> 0) vs"
  shows "j \<le> k \<Longrightarrow> k < length vs \<Longrightarrow> cmp (Some (vs ! k)) (Some (vs ! j)) \<le> 0 \<Longrightarrow>
         group_indices cmp vs ! k = group_indices cmp vs ! j"
proof (induction k)
  case 0
  then show ?case by simp
next
  case (Suc k)
  have flip: "\<And>a b. (cmp a b < 0) = (cmp b a > 0)"
    using cc by (simp add: consistent_comparator_def)
  have trans: "\<And>a b c. cmp a b \<le> 0 \<Longrightarrow> cmp b c \<le> 0 \<Longrightarrow> cmp a c \<le> 0"
    using cc unfolding consistent_comparator_def by blast
  have antisym: "\<And>a b. cmp a b \<le> 0 \<Longrightarrow> cmp b a \<le> 0 \<Longrightarrow> cmp a b = 0"
    using flip by (metis leD order_le_imp_less_or_eq)
  show ?case
  proof (cases "j = Suc k")
    case True
    then show ?thesis by simp
  next
    case False
    with Suc.prems have jk: "j \<le> k" and k: "k < length vs" by simp_all
    have step: "cmp (Some (vs ! k)) (Some (vs ! Suc k)) \<le> 0"
      using sorted Suc.prems(2) by (simp add: sorted_wrt_iff_nth_less)
    have jk_le: "cmp (Some (vs ! j)) (Some (vs ! k)) \<le> 0"
    proof (cases "j = k")
      case True
      then show ?thesis using cc by (simp add: consistent_comparator_def)
    next
      case False
      with jk have "j < k" by simp
      then show ?thesis using sorted k by (simp add: sorted_wrt_iff_nth_less)
    qed
    have kj_le: "cmp (Some (vs ! k)) (Some (vs ! j)) \<le> 0"
      using trans [OF step Suc.prems(3)] .
    have "cmp (Some (vs ! Suc k)) (Some (vs ! k)) \<le> 0"
      using trans [OF Suc.prems(3) jk_le] .
    then have "cmp (Some (vs ! k)) (Some (vs ! Suc k)) = 0"
      using antisym [OF step] by simp
    then have "group_indices cmp vs ! Suc k = group_indices cmp vs ! k"
      using group_indices_next [OF Suc.prems(2), of cmp] by simp
    with Suc.IH [OF jk k kj_le] show ?thesis by simp
  qed
qed

lemma last_occurrence:
  assumes "k < length vs"
  obtains k' where "k \<le> k'" "k' < length vs" "vs ! k' = vs ! k"
    "\<forall>j. k' < j \<and> j < length vs \<longrightarrow> vs ! j \<noteq> vs ! k'"
proof -
  define S where "S = {j. j < length vs \<and> vs ! j = vs ! k}"
  have fin: "finite S" and ne: "S \<noteq> {}" using assms by (auto simp: S_def)
  define k' where "k' = Max S"
  have "k' \<in> S" using Max_in [OF fin ne] by (simp add: k'_def)
  moreover have "k \<le> k'" using Max_ge [OF fin, of k] assms by (simp add: k'_def S_def)
  moreover have "\<forall>j. k' < j \<and> j < length vs \<longrightarrow> vs ! j \<noteq> vs ! k'"
  proof (intro allI impI notI)
    fix j assume "k' < j \<and> j < length vs" "vs ! j = vs ! k'"
    with \<open>k' \<in> S\<close> have "j \<in> S" by (simp add: S_def)
    from Max_ge [OF fin this] \<open>k' < j \<and> j < length vs\<close> show False by (simp add: k'_def)
  qed
  ultimately show ?thesis using that by (auto simp: S_def)
qed

lemma sorted_non_null:
  "sorted_wrt (\<lambda>a z. cmp a z \<le> 0) xs \<Longrightarrow>
   sorted_wrt (\<lambda>a z. cmp (Some a) (Some z) \<le> 0) (non_null xs)"
proof (induction xs)
  case Nil
  show ?case by (simp add: non_null_simps)
next
  case (Cons x xs)
  then show ?case
    by (cases x) (auto simp: non_null_simps set_non_null)
qed

lemma orderVariants_at_position:
  assumes "k < length (non_null (js_sort cmp cached))"
    and "consistent_comparator cmp \<or>
         (\<forall>j. k < j \<and> j < length (non_null (js_sort cmp cached)) \<longrightarrow>
              non_null (js_sort cmp cached) ! j \<noteq> non_null (js_sort cmp cached) ! k)"
  shows "orderVariants cmp cached (Some (non_null (js_sort cmp cached) ! k))
         = Some (group_indices cmp (non_null (js_sort cmp cached)) ! k)"
proof -
  define vs where "vs = non_null (js_sort cmp cached)"
  have len: "length (group_indices cmp vs) = length vs" by (rule length_group_indices)
  have last: "orderVariants cmp cached (Some (vs ! l)) = Some (group_indices cmp vs ! l)"
    if "l < length vs" "\<forall>j. l < j \<and> j < length vs \<longrightarrow> vs ! j \<noteq> vs ! l" for l
    using record_all_last [OF len that] by (simp add: orderVariants_record_all vs_def)
  from assms(2) show ?thesis
  proof
    assume cc: "consistent_comparator cmp"
    have sorted: "sorted_wrt (\<lambda>a z. cmp (Some a) (Some z) \<le> 0) vs"
      unfolding vs_def by (rule sorted_non_null [OF sorted_js_sort [OF cc]])
    from assms(1) obtain k' where k': "k \<le> k'" "k' < length vs" "vs ! k' = vs ! k"
      "\<forall>j. k' < j \<and> j < length vs \<longrightarrow> vs ! j \<noteq> vs ! k'"
      using last_occurrence [of k vs] by (auto simp: vs_def)
    have "cmp (Some (vs ! k')) (Some (vs ! k)) \<le> 0"
      using cc k'(3) by (simp add: consistent_comparator_def)
    from group_indices_equivalent [OF cc sorted k'(1,2) this] last [OF k'(2,4)] k'(3)
    show ?thesis by (simp add: vs_def)
  next
    assume "\<forall>j. k < j \<and> j < length (non_null (js_sort cmp cached)) \<longrightarrow>
              non_null (js_sort cmp cached) ! j \<noteq> non_null (js_sort cmp cached) ! k"
    with last [of k] assms(1) show ?thesis by (simp add: vs_def)
  qed
qed

lemma consistent_tier_compare: "consistent_comparator tier_compare"
  by (auto simp: consistent_comparator_def tier_compare_def split: option.splits if_splits)


lemmas order_eval = orderVariants_def js_sort_def tier_compare_def non_null_simps

lemma orderVariants_pass:
  "(let sorted = js_sort cmp cached; vs = non_null sorted; groups = group_indices cmp vs;
        order = orderVariants cmp cached
    in mset sorted = mset cached
     \<and> (consistent_comparator cmp \<longrightarrow> sorted_wrt (\<lambda>a z. cmp a z \<le> 0) sorted)
     \<and> order = record_all (zip vs groups) Map.empty
     \<and> order None = None
     \<and> dom order = Some ` set vs
     \<and> length groups = length vs
     \<and> (vs \<noteq> [] \<longrightarrow> groups ! 0 = 0)
     \<and> (\<forall>k. Suc k < length vs \<longrightarrow>
           groups ! Suc k = (if cmp (Some (vs ! k)) (Some (vs ! Suc k)) = 0
                             then groups ! k else groups ! k + 1))
     \<and> (\<forall>k < length vs.
           consistent_comparator cmp \<or> (\<forall>j. k < j \<and> j < length vs \<longrightarrow> vs ! j \<noteq> vs ! k) \<longrightarrow>
           order (Some (vs ! k)) = Some (groups ! k)))"
proof -
  define vs where "vs = non_null (js_sort cmp cached)"
  define groups where "groups = group_indices cmp vs"
  have len: "length groups = length vs"
    by (simp add: groups_def length_group_indices)
  have rec: "orderVariants cmp cached = record_all (zip vs groups) Map.empty"
    by (simp add: orderVariants_record_all vs_def groups_def)
  have keys: "fst ` set (zip vs groups) = set vs"
    using len by (metis map_fst_zip set_map)
  have null: "orderVariants cmp cached None = None"
    by (simp add: rec record_all_other)
  have dom: "dom (orderVariants cmp cached) = Some ` set vs"
    by (simp add: rec record_all_dom keys)
  have first: "vs \<noteq> [] \<longrightarrow> groups ! 0 = 0"
    by (simp add: groups_def group_indices_first)
  have nxt: "\<forall>k. Suc k < length vs \<longrightarrow>
           groups ! Suc k = (if cmp (Some (vs ! k)) (Some (vs ! Suc k)) = 0
                             then groups ! k else groups ! k + 1)"
    using group_indices_next [of _ vs cmp] by (simp add: groups_def)
  have pos: "\<forall>k < length vs.
           consistent_comparator cmp \<or> (\<forall>j. k < j \<and> j < length vs \<longrightarrow> vs ! j \<noteq> vs ! k) \<longrightarrow>
           orderVariants cmp cached (Some (vs ! k)) = Some (groups ! k)"
    using orderVariants_at_position [of _ cmp cached] by (simp add: vs_def groups_def)
  show ?thesis
    unfolding Let_def vs_def [symmetric] groups_def [symmetric]
    using mset_js_sort [of cmp cached] sorted_js_sort [of cmp cached] rec null dom len first nxt pos
    by (intro conjI) simp_all
qed

lemma orderVariants_equivalent_then_below:
  assumes "consistent_comparator cmp"
    and "Some a \<in> set cached" and "Some b \<in> set cached" and "Some c \<in> set cached"
    and "cmp (Some a) (Some b) = 0" and "cmp (Some b) (Some c) > 0"
  shows "\<exists>i j. orderVariants cmp cached (Some a) = Some i
             \<and> orderVariants cmp cached (Some b) = Some i
             \<and> orderVariants cmp cached (Some c) = Some j \<and> j < i"
proof -
  obtain M prev n where st: "order_loop cmp (js_sort cmp cached) (Map.empty, None, 0) = (M, prev, n)"
    by (cases "order_loop cmp (js_sort cmp cached) (Map.empty, None, 0)") auto
  then have M: "orderVariants cmp cached = M"
    by (simp add: orderVariants_def)
  have inv: "order_inv cmp (js_sort cmp cached) (M, prev, n)"
    using order_inv_loop [OF assms(1) sorted_js_sort [OF assms(1)], of cached] st by simp
  have cb: "cmp (Some c) (Some b) < 0"
    using assms(1,6) by (simp add: consistent_comparator_def)
  from inv assms(2) obtain i where i: "M (Some a) = Some i"
    by (auto simp: order_inv_def set_js_sort)
  from inv assms(4) obtain j where j: "M (Some c) = Some j"
    by (auto simp: order_inv_def set_js_sort)
  from inv assms(2,3,5) have ab: "M (Some a) = M (Some b)"
    unfolding order_inv_def by (simp add: set_js_sort)
  from inv assms(3,4) cb have "the (M (Some c)) < the (M (Some b))"
    unfolding order_inv_def by (simp add: set_js_sort)
  with i j ab M show ?thesis by simp
qed

text \<open>
  Claim C4. \<open>getVariantOrder\<close> sorts the values of the variant cache with the registry
  comparator (the sorted array is a permutation of them, and it is ordered by the
  comparator when that is consistent). With \<open>vs\<close> the variants of the sorted array,
  the returned map is the result of recording, from left to right, each variant with its
  group index, where the first index is 0 and the next is the same when the comparison
  with the predecessor is 0 and one more otherwise. \<open>null\<close> is not a key, the keys are
  the variants of the cache, and the map gives the variant at position \<open>k\<close> the group
  index of position \<open>k\<close> whenever the comparator is consistent or the variant does not
  occur again further right.
\<close>

theorem getVariantOrder_pass:
  "(let sorted = js_sort cmp (map snd (parsedVariants ds)); vs = non_null sorted; groups = group_indices cmp vs;
        order = getVariantOrder cmp ds
    in mset sorted = mset (map snd (parsedVariants ds))
     \<and> (consistent_comparator cmp \<longrightarrow> sorted_wrt (\<lambda>a z. cmp a z \<le> 0) sorted)
     \<and> order = record_all (zip vs groups) Map.empty
     \<and> order None = None
     \<and> dom order = Some ` set vs
     \<and> length groups = length vs
     \<and> (vs \<noteq> [] \<longrightarrow> groups ! 0 = 0)
     \<and> (\<forall>k. Suc k < length vs \<longrightarrow>
           groups ! Suc k = (if cmp (Some (vs ! k)) (Some (vs ! Suc k)) = 0
                             then groups ! k else groups ! k + 1))
     \<and> (\<forall>k < length vs.
           consistent_comparator cmp \<or> (\<forall>j. k < j \<and> j < length vs \<longrightarrow> vs ! j \<noteq> vs ! k) \<longrightarrow>
           order (Some (vs ! k)) = Some (groups ! k)))"
  unfolding getVariantOrder_def by (rule orderVariants_pass)

lemma tier_system_values:
  "map snd (parsedVariants tier_system) = [Some 10, None, Some 11, Some 5, Some 20]"
  by (simp add: tier_system_def)

theorem getVariantOrder_pass_witness:
  "consistent_comparator tier_compare
   \<and> map snd (parsedVariants tier_system) = [Some 10, None, Some 11, Some 5, Some 20]
   \<and> non_null (js_sort tier_compare (map snd (parsedVariants tier_system))) = [5, 10, 11, 20]
   \<and> group_indices tier_compare [5, 10, 11, 20] = [0, 1, 1, 2]
   \<and> getVariantOrder tier_compare tier_system (Some 11) = Some 1
   \<and> getVariantOrder tier_compare tier_system None = None"
proof -
  have cc: "consistent_comparator tier_compare"
    by (rule consistent_tier_compare)
  have vs: "non_null (js_sort tier_compare (map snd (parsedVariants tier_system))) = [5, 10, 11, 20]"
    by (simp add: tier_system_values order_eval)
  have gs: "group_indices tier_compare [5, 10, 11, 20] = [0, 1, 1, 2]"
    by (simp add: tier_compare_def)
  note inst = getVariantOrder_pass [of tier_compare tier_system, unfolded Let_def vs gs]
  note null = inst [THEN conjunct2, THEN conjunct2, THEN conjunct2, THEN conjunct1]
  note pos = inst [THEN conjunct2, THEN conjunct2, THEN conjunct2, THEN conjunct2,
      THEN conjunct2, THEN conjunct2, THEN conjunct2, THEN conjunct2]
  have "getVariantOrder tier_compare tier_system (Some 11) = Some 1"
    using pos [rule_format, of 2] cc by simp
  with cc vs gs null tier_system_values show ?thesis by simp
qed

text \<open>
  Claim C5, as amended. With a consistent comparator and three cached variants where
  \<open>compare(a, b) = 0\<close> and \<open>compare(b, c) > 0\<close>, the returned map gives \<open>a\<close> and
  \<open>b\<close> the same group index and \<open>c\<close> a strictly smaller one: the sort is ascending,
  so \<open>c\<close> comes first.
\<close>

theorem getVariantOrder_equivalent_then_below:
  assumes "consistent_comparator cmp"
    and "Some a \<in> snd ` set (parsedVariants ds)"
    and "Some b \<in> snd ` set (parsedVariants ds)"
    and "Some c \<in> snd ` set (parsedVariants ds)"
    and "cmp (Some a) (Some b) = 0" and "cmp (Some b) (Some c) > 0"
  shows "\<exists>i j. getVariantOrder cmp ds (Some a) = Some i
             \<and> getVariantOrder cmp ds (Some b) = Some i
             \<and> getVariantOrder cmp ds (Some c) = Some j \<and> j < i"
  unfolding getVariantOrder_def
  using assms by (intro orderVariants_equivalent_then_below) simp_all

theorem getVariantOrder_equivalent_then_below_witness:
  "consistent_comparator tier_compare
   \<and> Some 10 \<in> snd ` set (parsedVariants tier_system)
   \<and> Some 11 \<in> snd ` set (parsedVariants tier_system)
   \<and> Some 5 \<in> snd ` set (parsedVariants tier_system)
   \<and> tier_compare (Some 10) (Some 11) = 0 \<and> tier_compare (Some 11) (Some 5) > 0
   \<and> (\<exists>i j. getVariantOrder tier_compare tier_system (Some 10) = Some i
            \<and> getVariantOrder tier_compare tier_system (Some 11) = Some i
            \<and> getVariantOrder tier_compare tier_system (Some 5) = Some j \<and> j < i)"
proof -
  have h: "Some 10 \<in> snd ` set (parsedVariants tier_system)"
      "Some 11 \<in> snd ` set (parsedVariants tier_system)"
      "Some 5 \<in> snd ` set (parsedVariants tier_system)"
      "tier_compare (Some 10) (Some 11) = 0" "tier_compare (Some 11) (Some 5) > 0"
    by (simp_all add: tier_compare_def tier_system_def)
  from getVariantOrder_equivalent_then_below [OF consistent_tier_compare h]
  show ?thesis using consistent_tier_compare h by blast
qed

text \<open>
  Claim C5 as stated fails: here \<open>compare(a, b) = 0\<close> and \<open>compare(b, c) > 0\<close> for
  \<open>a = 10\<close>, \<open>b = 11\<close>, \<open>c = 5\<close>, and \<open>c\<close> gets index 0 while \<open>a\<close> and \<open>b\<close>
  get index 1.
\<close>

theorem getVariantOrder_greater_counterexample:
  "map snd (parsedVariants tier_system) = [Some 10, None, Some 11, Some 5, Some 20]
   \<and> tier_compare (Some 10) (Some 11) = 0 \<and> tier_compare (Some 11) (Some 5) > 0
   \<and> getVariantOrder tier_compare tier_system (Some 10) = Some 1
   \<and> getVariantOrder tier_compare tier_system (Some 11) = Some 1
   \<and> getVariantOrder tier_compare tier_system (Some 5) = Some 0"
  by (simp add: getVariantOrder_def tier_system_values order_eval)

section \<open>Properties of the caches and of used-variable tracking\<close>

lemma default_map_get_hit:
  "map_of entries k = Some v \<Longrightarrow> default_map_get f k entries s = (v, entries, s)"
  by (simp add: default_map_get_def)

lemma default_map_get_miss:
  "map_of entries k = None \<Longrightarrow>
   default_map_get f k entries s = (fst (f k s), entries @ [(k, fst (f k s))], snd (f k s))"
  by (simp add: default_map_get_def split: prod.splits)

lemma default_map_get_keeps:
  "map_of entries k' = Some v \<Longrightarrow>
   map_of (fst (snd (default_map_get f k entries s))) k' = Some v"
  by (cases "map_of entries k")
     (auto simp: default_map_get_hit default_map_get_miss map_add_Some_iff)

lemma default_map_get_stored:
  "map_of (fst (snd (default_map_get f k entries s))) k = Some (fst (default_map_get f k entries s))"
  by (cases "map_of entries k")
     (auto simp: default_map_get_hit default_map_get_miss map_add_Some_iff)

lemma parseCandidate_fields:
  "fst (parseCandidate cs s ds)
     = fst (default_map_get (parsedCandidates_factory cs) s (parsedCandidates ds) (env ds))"
  "parsedCandidates (snd (parseCandidate cs s ds))
     = fst (snd (default_map_get (parsedCandidates_factory cs) s (parsedCandidates ds) (env ds)))"
  "env (snd (parseCandidate cs s ds))
     = snd (snd (default_map_get (parsedCandidates_factory cs) s (parsedCandidates ds) (env ds)))"
  "parsedVariants (snd (parseCandidate cs s ds)) = parsedVariants ds"
  "compiledAstNodes (snd (parseCandidate cs s ds)) = compiledAstNodes ds"
  "trackedVariables (snd (parseCandidate cs s ds)) = trackedVariables ds"
  by (simp_all add: parseCandidate_def split: prod.splits)

lemma parseVariant_fields:
  "fst (parseVariant cs s ds)
     = fst (default_map_get (parsedVariants_factory cs) s (parsedVariants ds) (env ds))"
  "parsedVariants (snd (parseVariant cs s ds))
     = fst (snd (default_map_get (parsedVariants_factory cs) s (parsedVariants ds) (env ds)))"
  "env (snd (parseVariant cs s ds))
     = snd (snd (default_map_get (parsedVariants_factory cs) s (parsedVariants ds) (env ds)))"
  "parsedCandidates (snd (parseVariant cs s ds)) = parsedCandidates ds"
  "compiledAstNodes (snd (parseVariant cs s ds)) = compiledAstNodes ds"
  "trackedVariables (snd (parseVariant cs s ds)) = trackedVariables ds"
  by (simp_all add: parseVariant_def split: prod.splits)

lemma compileAstNodes_fields:
  "fst (compileAstNodes cs c ds)
     = fst (default_map_get (compiledAstNodes_factory cs) c (compiledAstNodes ds) (env ds))"
  "compiledAstNodes (snd (compileAstNodes cs c ds))
     = fst (snd (default_map_get (compiledAstNodes_factory cs) c (compiledAstNodes ds) (env ds)))"
  "env (snd (compileAstNodes cs c ds))
     = snd (snd (default_map_get (compiledAstNodes_factory cs) c (compiledAstNodes ds) (env ds)))"
  "parsedCandidates (snd (compileAstNodes cs c ds)) = parsedCandidates ds"
  "parsedVariants (snd (compileAstNodes cs c ds)) = parsedVariants ds"
  "trackedVariables (snd (compileAstNodes cs c ds)) = trackedVariables ds"
  by (simp_all add: compileAstNodes_def split: prod.splits)

lemma trackUsedVariables_fields:
  "trackedVariables (trackUsedVariables cs raw ds)
     = fst (snd (default_map_get (trackUsedVariables_factory cs) raw (trackedVariables ds) (env ds)))"
  "env (trackUsedVariables cs raw ds)
     = snd (snd (default_map_get (trackUsedVariables_factory cs) raw (trackedVariables ds) (env ds)))"
  "parsedCandidates (trackUsedVariables cs raw ds) = parsedCandidates ds"
  "parsedVariants (trackUsedVariables cs raw ds) = parsedVariants ds"
  "compiledAstNodes (trackUsedVariables cs raw ds) = compiledAstNodes ds"
  by (simp_all add: trackUsedVariables_def split: prod.splits)

lemma parseCandidate_calls:
  "calls (env (snd (parseCandidate cs s ds)))
     = calls (env ds) @ (if map_of (parsedCandidates ds) s = None then [CallParseCandidate s] else [])"
  by (auto simp: parseCandidate_fields default_map_get_hit default_map_get_miss
        parsedCandidates_factory_def split: prod.splits)

lemma parseVariant_calls:
  "calls (env (snd (parseVariant cs s ds)))
     = calls (env ds) @ (if map_of (parsedVariants ds) s = None then [CallParseVariant s] else [])"
  by (auto simp: parseVariant_fields default_map_get_hit default_map_get_miss
        parsedVariants_factory_def split: prod.splits)

lemma compiledAstNodes_factory_calls:
  "calls (snd (compiledAstNodes_factory cs c e))
     = calls e @ [CallCompileAstNodes c,
         CallSubstituteFunctions (map (ext_node cs) (fst (ext_compileAstNodes cs c (world e))))]"
  by (simp add: compiledAstNodes_factory_def Let_def split: prod.splits sum.splits)

lemma compileAstNodes_calls:
  "calls (env (snd (compileAstNodes cs c ds)))
     = calls (env ds) @ (if map_of (compiledAstNodes ds) c = None
         then [CallCompileAstNodes c,
               CallSubstituteFunctions
                 (map (ext_node cs) (fst (ext_compileAstNodes cs c (world (env ds)))))]
         else [])"
  by (auto simp: compileAstNodes_fields default_map_get_hit default_map_get_miss
        compiledAstNodes_factory_calls)

lemma only_marks_refl: "only_marks e e"
  unfolding only_marks_def by (auto intro: exI [of _ "[]"])

lemma only_marks_trans: "only_marks a b \<Longrightarrow> only_marks b c \<Longrightarrow> only_marks a c"
  unfolding only_marks_def
proof (elim conjE exE, intro conjI)
  fix ms1 ms2
  assume "calls b = calls a @ map CallMarkUsedVariable ms1"
    and "calls c = calls b @ map CallMarkUsedVariable ms2"
  then have "calls c = calls a @ map CallMarkUsedVariable (ms1 @ ms2)" by simp
  then show "\<exists>ms. calls c = calls a @ map CallMarkUsedVariable ms" ..
qed simp

lemma walk_related:
  assumes "\<And>node s. R s (snd (visit node s))"
    and "\<And>s. R s s" and "\<And>a b c. R a b \<Longrightarrow> R b c \<Longrightarrow> R a c"
  shows "R s (walk visit nodes s)"
  using assms
proof (induction visit nodes s rule: walk.induct)
  case (1 visit s)
  then show ?case by simp
next
  case (2 visit name nodes rest s)
  obtain a s' where v: "visit (ValueFunction name nodes) s = (a, s')"
    by (cases "visit (ValueFunction name nodes) s") auto
  have r1: "R s s'" using "2.prems"(1) [of s "ValueFunction name nodes"] v by simp
  show ?case
  proof (cases a)
    case Continue
    have "R s' (walk visit nodes s')"
      using "2.IH"(1) [OF v [symmetric] Continue] "2.prems" by blast
    moreover have "R (walk visit nodes s') (walk visit rest (walk visit nodes s'))"
      using "2.IH"(2) [OF v [symmetric] Continue] "2.prems" by blast
    ultimately show ?thesis
      using r1 v Continue "2.prems"(3) by (metis (no_types, lifting) walk.simps(2) old.prod.case walk_action.simps(3))
  next
    case Skip
    have "R s' (walk visit rest s')"
      using "2.IH"(3) [OF v [symmetric] Skip] "2.prems" by blast
    then show ?thesis
      using r1 v Skip "2.prems"(3) by (metis (no_types, lifting) walk.simps(2) old.prod.case walk_action.simps(4))
  qed
next
  case (3 visit v rest s)
  have "R s (snd (visit (ValueWord v) s))" using "3.prems"(1) .
  moreover have "R (snd (visit (ValueWord v) s)) (walk visit rest (snd (visit (ValueWord v) s)))"
    using "3.IH" "3.prems" by blast
  ultimately show ?case using "3.prems"(3) by (metis walk.simps(3))
next
  case (4 visit v rest s)
  have "R s (snd (visit (ValueSeparator v) s))" using "4.prems"(1) .
  moreover have "R (snd (visit (ValueSeparator v) s)) (walk visit rest (snd (visit (ValueSeparator v) s)))"
    using "4.IH" "4.prems" by blast
  ultimately show ?case using "4.prems"(3) by (metis walk.simps(4))
qed

lemma mark_visitor_only_marks: "only_marks e (snd (mark_visitor cs node e))"
proof (cases "snd (mark_visitor cs node e) = e")
  case True
  then show ?thesis by (simp add: only_marks_refl)
next
  case False
  then obtain v where "calls (snd (mark_visitor cs node e)) = calls e @ map CallMarkUsedVariable [v]"
    and "arrays (snd (mark_visitor cs node e)) = arrays e"
    by (auto simp: mark_visitor_def split: value_node.splits list.splits if_splits)
  then show ?thesis unfolding only_marks_def by blast
qed

lemma walk_mark_visitor_only_marks: "only_marks e (walk (mark_visitor cs) nodes e)"
  by (rule walk_related [where R = only_marks])
     (auto intro: mark_visitor_only_marks only_marks_refl only_marks_trans)

lemma var_visitor_only_marks: "only_marks e (snd (var_visitor cs node e))"
  by (auto simp: var_visitor_def only_marks_refl walk_mark_visitor_only_marks
        split: value_node.splits)

lemma walk_var_visitor_only_marks: "only_marks e (walk (var_visitor cs) nodes e)"
  by (rule walk_related [where R = only_marks])
     (auto intro: var_visitor_only_marks only_marks_refl only_marks_trans)

lemma trackUsedVariables_only_marks: "only_marks (env ds) (env (trackUsedVariables cs raw ds))"
  by (cases "map_of (trackedVariables ds) raw")
     (auto simp: trackUsedVariables_fields default_map_get_hit default_map_get_miss
        trackUsedVariables_factory_def only_marks_refl walk_var_visitor_only_marks)

lemma only_marks_count:
  assumes "only_marks e e'" and "\<And>v. x \<noteq> CallMarkUsedVariable v"
  shows "count_list (calls e') x = count_list (calls e) x"
proof -
  from assms(1) obtain ms where ms: "calls e' = calls e @ map CallMarkUsedVariable ms"
    unfolding only_marks_def by blast
  have "count_list (map CallMarkUsedVariable ms) x = 0"
    using assms(2) by (induction ms) auto
  with ms show ?thesis by simp
qed

lemma map_of_default_map_get:
  "map_of (fst (snd (default_map_get f k entries s))) k' = None
   \<longleftrightarrow> k' \<noteq> k \<and> map_of entries k' = None"
  by (cases "map_of entries k"; cases "k' = k")
     (auto simp: default_map_get_hit default_map_get_miss map_add_def split: option.splits)

lemma cache_inv_init: "cache_inv (buildDesignSystem w)"
  by (simp add: cache_inv_def buildDesignSystem_def)

lemma cache_inv_parseCandidate: "cache_inv ds \<Longrightarrow> cache_inv (snd (parseCandidate cs s ds))"
  unfolding cache_inv_def
  by (auto simp: parseCandidate_calls parseCandidate_fields(2,4,5,6) map_of_default_map_get)

lemma cache_inv_parseVariant: "cache_inv ds \<Longrightarrow> cache_inv (snd (parseVariant cs s ds))"
  unfolding cache_inv_def
  by (auto simp: parseVariant_calls parseVariant_fields(2,4,5,6) map_of_default_map_get)

lemma cache_inv_compileAstNodes: "cache_inv ds \<Longrightarrow> cache_inv (snd (compileAstNodes cs c ds))"
  unfolding cache_inv_def
  by (auto simp: compileAstNodes_calls compileAstNodes_fields(2,4,5,6) map_of_default_map_get)

lemma cache_inv_trackUsedVariables: "cache_inv ds \<Longrightarrow> cache_inv (trackUsedVariables cs raw ds)"
  unfolding cache_inv_def
  by (simp add: only_marks_count [OF trackUsedVariables_only_marks] trackUsedVariables_fields(3,4,5))

lemma cache_inv_perform: "cache_inv ds \<Longrightarrow> cache_inv (perform cs op ds)"
  by (cases op)
     (simp_all add: cache_inv_parseCandidate cache_inv_parseVariant cache_inv_compileAstNodes
        cache_inv_trackUsedVariables)

lemma cache_inv_run: "cache_inv ds \<Longrightarrow> cache_inv (run cs ops ds)"
  unfolding run_def by (induction ops arbitrary: ds) (simp_all add: cache_inv_perform)

lemma perform_keeps_parsedCandidates:
  "map_of (parsedCandidates ds) s = Some r \<Longrightarrow>
   map_of (parsedCandidates (perform cs op ds)) s = Some r"
  by (cases op)
     (simp_all add: parseCandidate_fields parseVariant_fields compileAstNodes_fields
        trackUsedVariables_fields default_map_get_keeps)

lemma perform_keeps_parsedVariants:
  "map_of (parsedVariants ds) s = Some r \<Longrightarrow>
   map_of (parsedVariants (perform cs op ds)) s = Some r"
  by (cases op)
     (simp_all add: parseCandidate_fields parseVariant_fields compileAstNodes_fields
        trackUsedVariables_fields default_map_get_keeps)

lemma perform_keeps_compiledAstNodes:
  "map_of (compiledAstNodes ds) c = Some r \<Longrightarrow>
   map_of (compiledAstNodes (perform cs op ds)) c = Some r"
  by (cases op)
     (simp_all add: parseCandidate_fields parseVariant_fields compileAstNodes_fields
        trackUsedVariables_fields default_map_get_keeps)

lemma run_keeps_parsedCandidates:
  "map_of (parsedCandidates ds) s = Some r \<Longrightarrow>
   map_of (parsedCandidates (run cs ops ds)) s = Some r"
  unfolding run_def by (induction ops arbitrary: ds) (simp_all add: perform_keeps_parsedCandidates)

lemma run_keeps_parsedVariants:
  "map_of (parsedVariants ds) s = Some r \<Longrightarrow>
   map_of (parsedVariants (run cs ops ds)) s = Some r"
  unfolding run_def by (induction ops arbitrary: ds) (simp_all add: perform_keeps_parsedVariants)

lemma run_keeps_compiledAstNodes:
  "map_of (compiledAstNodes ds) c = Some r \<Longrightarrow>
   map_of (compiledAstNodes (run cs ops ds)) c = Some r"
  unfolding run_def by (induction ops arbitrary: ds) (simp_all add: perform_keeps_compiledAstNodes)

lemma parseCandidate_hit:
  "map_of (parsedCandidates ds) s = Some r \<Longrightarrow> parseCandidate cs s ds = (r, ds)"
  by (simp add: parseCandidate_def default_map_get_hit)

lemma parseVariant_hit:
  "map_of (parsedVariants ds) s = Some r \<Longrightarrow> parseVariant cs s ds = (r, ds)"
  by (simp add: parseVariant_def default_map_get_hit)

lemma compileAstNodes_hit:
  "map_of (compiledAstNodes ds) c = Some r \<Longrightarrow> compileAstNodes cs c ds = (r, ds)"
  by (simp add: compileAstNodes_def default_map_get_hit)

lemma parseCandidate_stored:
  "map_of (parsedCandidates (snd (parseCandidate cs s ds))) s = Some (fst (parseCandidate cs s ds))"
  by (simp add: parseCandidate_fields default_map_get_stored)

lemma parseVariant_stored:
  "map_of (parsedVariants (snd (parseVariant cs s ds))) s = Some (fst (parseVariant cs s ds))"
  by (simp add: parseVariant_fields default_map_get_stored)

lemma compileAstNodes_stored:
  "map_of (compiledAstNodes (snd (compileAstNodes cs c ds))) c = Some (fst (compileAstNodes cs c ds))"
  by (simp add: compileAstNodes_fields default_map_get_stored)

lemma count_le_one:
  "cache_inv ds \<Longrightarrow>
   count_list (calls (env ds)) (CallParseCandidate s) \<le> 1 \<and>
   count_list (calls (env ds)) (CallParseVariant s) \<le> 1 \<and>
   count_list (calls (env ds)) (CallCompileAstNodes c) \<le> 1"
  by (simp add: cache_inv_def)

text \<open>
  Claim C1. After \<open>parseCandidate s\<close> has returned an array, every later
  \<open>parseCandidate s\<close> on the same design system, whatever cache operations happened in
  between, returns the array of the same identity and changes nothing; likewise
  \<open>parseVariant s\<close> returns the same variant or \<open>null\<close>. In a design system reached from
  a new one, each external parser has been invoked at most once for \<open>s\<close>.
\<close>

theorem parse_caches_identity:
  "parseCandidate cs s (run cs ops (snd (parseCandidate cs s ds)))
     = (fst (parseCandidate cs s ds), run cs ops (snd (parseCandidate cs s ds)))
   \<and> parseVariant cs s (run cs ops (snd (parseVariant cs s ds)))
     = (fst (parseVariant cs s ds), run cs ops (snd (parseVariant cs s ds)))
   \<and> count_list (calls (env (run cs ops (buildDesignSystem w)))) (CallParseCandidate s) \<le> 1
   \<and> count_list (calls (env (run cs ops (buildDesignSystem w)))) (CallParseVariant s) \<le> 1"
proof (intro conjI)
  show "parseCandidate cs s (run cs ops (snd (parseCandidate cs s ds)))
     = (fst (parseCandidate cs s ds), run cs ops (snd (parseCandidate cs s ds)))"
    by (rule parseCandidate_hit [OF run_keeps_parsedCandidates [OF parseCandidate_stored]])
  show "parseVariant cs s (run cs ops (snd (parseVariant cs s ds)))
     = (fst (parseVariant cs s ds), run cs ops (snd (parseVariant cs s ds)))"
    by (rule parseVariant_hit [OF run_keeps_parsedVariants [OF parseVariant_stored]])
  have inv: "cache_inv (run cs ops (buildDesignSystem w))"
    by (rule cache_inv_run [OF cache_inv_init])
  show "count_list (calls (env (run cs ops (buildDesignSystem w)))) (CallParseCandidate s) \<le> 1"
    using count_le_one [OF inv] by simp
  show "count_list (calls (env (run cs ops (buildDesignSystem w)))) (CallParseVariant s) \<le> 1"
    using count_le_one [OF inv] by simp
qed

lemma compiledAstNodes_factory_result:
  assumes "ext_compileAstNodes cs c (world e) = (ast, w1)"
    and "ext_substituteFunctions cs (map (ext_node cs) ast) w1 = (outcome, w2)"
  shows "compiledAstNodes_factory cs c e
         = ((case outcome of Inl err \<Rightarrow> [] | Inr u \<Rightarrow> ast),
            e\<lparr>world := w2,
              calls := calls e @ [CallCompileAstNodes c,
                                  CallSubstituteFunctions (map (ext_node cs) ast)]\<rparr>)"
  using assms by (simp add: compiledAstNodes_factory_def Let_def split: sum.splits)

text \<open>
  Claim C7. After \<open>compileAstNodes c\<close> has returned, every later \<open>compileAstNodes c\<close>
  returns the same result and changes nothing. When \<open>c\<close> was not compiled before, two
  calls in a row invoke the external compiler once and the substitution once, in this
  order, and nothing else: the call record grows by exactly these two calls, the first
  call returns the compiler's entries (or the empty sequence when the substitution
  throws), the second call returns the same, and the collaborators' world after both
  calls is the world that one run of the compiler followed by one run of the substitution
  on its nodes leaves. In a design system reached from a new one the compiler has been
  invoked at most once for \<open>c\<close>.
\<close>

theorem compileAstNodes_computed_once:
  "compileAstNodes cs c (run cs ops (snd (compileAstNodes cs c ds)))
     = (fst (compileAstNodes cs c ds), run cs ops (snd (compileAstNodes cs c ds)))
   \<and> (map_of (compiledAstNodes ds) c = None \<longrightarrow>
        calls (env (snd (compileAstNodes cs c (snd (compileAstNodes cs c ds)))))
          = calls (env ds) @ [CallCompileAstNodes c,
              CallSubstituteFunctions
                (map (ext_node cs) (fst (ext_compileAstNodes cs c (world (env ds)))))])
   \<and> count_list (calls (env (run cs ops (buildDesignSystem w)))) (CallCompileAstNodes c) \<le> 1
   \<and> (map_of (compiledAstNodes ds) c = None \<longrightarrow>
        (let (ast, w1) = ext_compileAstNodes cs c (world (env ds));
             (outcome, w2) = ext_substituteFunctions cs (map (ext_node cs) ast) w1;
             once = compileAstNodes cs c ds;
             twice = compileAstNodes cs c (snd once)
         in fst once = (case outcome of Inl err \<Rightarrow> [] | Inr u \<Rightarrow> ast)
          \<and> world (env (snd once)) = w2
          \<and> fst twice = fst once
          \<and> world (env (snd twice)) = w2
          \<and> arrays (env (snd twice)) = arrays (env ds)))"
proof (intro conjI impI)
  show "compileAstNodes cs c (run cs ops (snd (compileAstNodes cs c ds)))
     = (fst (compileAstNodes cs c ds), run cs ops (snd (compileAstNodes cs c ds)))"
    by (rule compileAstNodes_hit [OF run_keeps_compiledAstNodes [OF compileAstNodes_stored]])
next
  assume miss: "map_of (compiledAstNodes ds) c = None"
  have "compileAstNodes cs c (snd (compileAstNodes cs c ds))
        = (fst (compileAstNodes cs c ds), snd (compileAstNodes cs c ds))"
    by (rule compileAstNodes_hit [OF compileAstNodes_stored])
  then show "calls (env (snd (compileAstNodes cs c (snd (compileAstNodes cs c ds)))))
          = calls (env ds) @ [CallCompileAstNodes c,
              CallSubstituteFunctions
                (map (ext_node cs) (fst (ext_compileAstNodes cs c (world (env ds)))))]"
    using miss by (simp add: compileAstNodes_calls)
next
  have inv: "cache_inv (run cs ops (buildDesignSystem w))"
    by (rule cache_inv_run [OF cache_inv_init])
  show "count_list (calls (env (run cs ops (buildDesignSystem w)))) (CallCompileAstNodes c) \<le> 1"
    using count_le_one [OF inv] by simp
next
  assume miss: "map_of (compiledAstNodes ds) c = None"
  obtain ast w1 where comp: "ext_compileAstNodes cs c (world (env ds)) = (ast, w1)"
    by (cases "ext_compileAstNodes cs c (world (env ds))") auto
  obtain outcome w2
    where subst: "ext_substituteFunctions cs (map (ext_node cs) ast) w1 = (outcome, w2)"
    by (cases "ext_substituteFunctions cs (map (ext_node cs) ast) w1") auto
  note fac = compiledAstNodes_factory_result [OF comp subst]
  have res: "fst (compileAstNodes cs c ds) = (case outcome of Inl err \<Rightarrow> [] | Inr u \<Rightarrow> ast)"
    using miss by (simp add: compileAstNodes_fields(1) default_map_get_miss fac)
  have e: "env (snd (compileAstNodes cs c ds))
           = (env ds)\<lparr>world := w2,
               calls := calls (env ds) @ [CallCompileAstNodes c,
                                          CallSubstituteFunctions (map (ext_node cs) ast)]\<rparr>"
    using miss by (simp add: compileAstNodes_fields(3) default_map_get_miss fac)
  have again: "compileAstNodes cs c (snd (compileAstNodes cs c ds))
        = (fst (compileAstNodes cs c ds), snd (compileAstNodes cs c ds))"
    by (rule compileAstNodes_hit [OF compileAstNodes_stored])
  show "let (ast, w1) = ext_compileAstNodes cs c (world (env ds));
             (outcome, w2) = ext_substituteFunctions cs (map (ext_node cs) ast) w1;
             once = compileAstNodes cs c ds;
             twice = compileAstNodes cs c (snd once)
         in fst once = (case outcome of Inl err \<Rightarrow> [] | Inr u \<Rightarrow> ast)
          \<and> world (env (snd once)) = w2
          \<and> fst twice = fst once
          \<and> world (env (snd twice)) = w2
          \<and> arrays (env (snd twice)) = arrays (env ds)"
    unfolding comp subst Let_def prod.case again
    using res e by simp
qed

theorem compileAstNodes_computed_once_witness:
  "map_of (compiledAstNodes demo_system) 4 = None
   \<and> calls (env (snd (compileAstNodes counting_collaborators 4
                        (snd (compileAstNodes counting_collaborators 4 demo_system)))))
       = [CallCompileAstNodes 4, CallSubstituteFunctions [4, 5]]
   \<and> fst (compileAstNodes counting_collaborators 4
            (snd (compileAstNodes counting_collaborators 4 demo_system))) = [4, 5]
   \<and> world (env (snd (compileAstNodes counting_collaborators 4
                        (snd (compileAstNodes counting_collaborators 4 demo_system))))) = 11"
proof -
  have miss: "map_of (compiledAstNodes demo_system) 4 = None"
    by (simp add: demo_system_def buildDesignSystem_def)
  have w: "world (env demo_system) = 0" "calls (env demo_system) = []"
    by (simp_all add: demo_system_def buildDesignSystem_def)
  have comp: "ext_compileAstNodes counting_collaborators 4 0 = ([4, 5], 1)"
    by (simp add: counting_collaborators_def)
  have subst: "ext_substituteFunctions counting_collaborators
                 (map (ext_node counting_collaborators) [4, 5]) 1 = (Inr (), 11)"
    by (simp add: counting_collaborators_def)
  note inst = compileAstNodes_computed_once [of counting_collaborators 4 "[]" demo_system,
      unfolded w comp subst Let_def prod.case]
  have node: "ext_node counting_collaborators = (\<lambda>e. e)"
    by (simp add: counting_collaborators_def)
  from inst miss show ?thesis
    by (simp add: w comp node)
qed

text \<open>
  Claim C2. When \<open>c\<close> is not compiled yet and the substitution throws on the nodes the
  compiler returns for it, \<open>compileAstNodes c\<close> returns the empty sequence (its result
  has no error branch: the exception is caught), the cache keeps the empty sequence for
  \<open>c\<close> through every later operation, and every later \<open>compileAstNodes c\<close> returns the
  empty sequence without changing anything, so without invoking a collaborator.
\<close>

theorem compileAstNodes_substitution_failure:
  assumes "map_of (compiledAstNodes ds) c = None"
    and "ext_compileAstNodes cs c (world (env ds)) = (ast, w1)"
    and "fst (ext_substituteFunctions cs (map (ext_node cs) ast) w1) = Inl Thrown"
  shows "fst (compileAstNodes cs c ds) = []
     \<and> map_of (compiledAstNodes (run cs ops (snd (compileAstNodes cs c ds)))) c = Some []
     \<and> compileAstNodes cs c (run cs ops (snd (compileAstNodes cs c ds)))
         = ([], run cs ops (snd (compileAstNodes cs c ds)))"
proof -
  have "fst (compiledAstNodes_factory cs c (env ds)) = []"
    using assms(2,3)
    by (auto simp: compiledAstNodes_factory_def Let_def split: prod.splits sum.splits)
  then have empty: "fst (compileAstNodes cs c ds) = []"
    using assms(1) by (simp add: compileAstNodes_fields default_map_get_miss)
  have "map_of (compiledAstNodes (run cs ops (snd (compileAstNodes cs c ds)))) c
        = Some (fst (compileAstNodes cs c ds))"
    by (rule run_keeps_compiledAstNodes [OF compileAstNodes_stored])
  with empty
  have kept: "map_of (compiledAstNodes (run cs ops (snd (compileAstNodes cs c ds)))) c = Some []"
    by simp
  from empty kept compileAstNodes_hit [OF kept] show ?thesis by simp
qed

theorem compileAstNodes_substitution_failure_witness:
  "map_of (compiledAstNodes demo_system) 3 = None
   \<and> ext_compileAstNodes demo_collaborators 3 (world (env demo_system)) = ([3], 0)
   \<and> fst (ext_substituteFunctions demo_collaborators (map (ext_node demo_collaborators) [3]) 0)
       = Inl Thrown
   \<and> fst (compileAstNodes demo_collaborators 3 demo_system) = []
   \<and> compileAstNodes demo_collaborators 3
        (run demo_collaborators [OpParseVariant (js ''hover''), OpCompileAstNodes 3]
           (snd (compileAstNodes demo_collaborators 3 demo_system)))
       = ([], run demo_collaborators [OpParseVariant (js ''hover''), OpCompileAstNodes 3]
                (snd (compileAstNodes demo_collaborators 3 demo_system)))"
proof -
  have a: "map_of (compiledAstNodes demo_system) 3 = None"
    by (simp add: demo_system_def buildDesignSystem_def)
  have b: "ext_compileAstNodes demo_collaborators 3 (world (env demo_system)) = ([3], 0)"
    by (simp add: demo_system_def buildDesignSystem_def demo_collaborators_def)
  have c: "fst (ext_substituteFunctions demo_collaborators (map (ext_node demo_collaborators) [3]) 0)
           = Inl Thrown"
    by (simp add: demo_collaborators_def)
  from compileAstNodes_substitution_failure [OF a b c] a b c show ?thesis by blast
qed

lemma parse_nested_var:
  "parse (js ''var(--a, var(--b, red))'')
   = [ValueFunction (js ''var'')
        [ValueWord (js ''--a''), ValueSeparator (js '', ''),
         ValueFunction (js ''var'')
           [ValueWord (js ''--b''), ValueSeparator (js '', ''), ValueWord (js ''red'')]]]"
  by (simp add: parse_def js_def separator_char_def flush_word_def flush_separator_def)

lemma trackUsedVariables_hit:
  "map_of (trackedVariables ds) raw = Some r \<Longrightarrow> trackUsedVariables cs raw ds = ds"
  by (simp add: trackUsedVariables_def default_map_get_hit)

lemma trackUsedVariables_stored:
  "\<exists>r. map_of (trackedVariables (trackUsedVariables cs raw ds)) raw = Some r"
  by (simp add: trackUsedVariables_fields default_map_get_stored)

text \<open>
  Claim C8. On a design system that has not tracked \<open>var(--a, var(--b, red))\<close> yet,
  \<open>trackUsedVariables\<close> calls \<open>markUsedVariable\<close> for \<open>--a\<close> and then for \<open>--b\<close>, once
  each, and calls no other collaborator; a second call changes nothing.
\<close>

theorem trackUsedVariables_nested_var:
  assumes "map_of (trackedVariables ds) (js ''var(--a, var(--b, red))'') = None"
  shows "calls (env (trackUsedVariables cs (js ''var(--a, var(--b, red))'') ds))
           = calls (env ds) @ [CallMarkUsedVariable (js ''--a''), CallMarkUsedVariable (js ''--b'')]
     \<and> world (env (trackUsedVariables cs (js ''var(--a, var(--b, red))'') ds))
           = ext_markUsedVariable cs (js ''--b'') (ext_markUsedVariable cs (js ''--a'') (world (env ds)))
     \<and> trackUsedVariables cs (js ''var(--a, var(--b, red))'')
          (trackUsedVariables cs (js ''var(--a, var(--b, red))'') ds)
           = trackUsedVariables cs (js ''var(--a, var(--b, red))'') ds"
proof -
  have walked: "walk (var_visitor cs) (parse (js ''var(--a, var(--b, red))'')) (env ds)
      = (env ds)\<lparr>world := ext_markUsedVariable cs (js ''--b'')
                              (ext_markUsedVariable cs (js ''--a'') (world (env ds))),
                  calls := calls (env ds) @ [CallMarkUsedVariable (js ''--a''),
                                             CallMarkUsedVariable (js ''--b'')]\<rparr>"
    unfolding parse_nested_var by (simp add: var_visitor_def mark_visitor_def js_def)
  have e: "env (trackUsedVariables cs (js ''var(--a, var(--b, red))'') ds)
           = walk (var_visitor cs) (parse (js ''var(--a, var(--b, red))'')) (env ds)"
    using assms
    by (simp add: trackUsedVariables_fields default_map_get_miss trackUsedVariables_factory_def)
  have again: "trackUsedVariables cs (js ''var(--a, var(--b, red))'')
          (trackUsedVariables cs (js ''var(--a, var(--b, red))'') ds)
           = trackUsedVariables cs (js ''var(--a, var(--b, red))'') ds"
    using trackUsedVariables_stored [of cs "js ''var(--a, var(--b, red))''" ds]
    by (auto simp: trackUsedVariables_hit)
  show ?thesis
    unfolding e walked using again by simp
qed

theorem trackUsedVariables_nested_var_witness:
  "map_of (trackedVariables demo_system) (js ''var(--a, var(--b, red))'') = None
   \<and> calls (env (trackUsedVariables demo_collaborators (js ''var(--a, var(--b, red))'') demo_system))
       = [CallMarkUsedVariable (js ''--a''), CallMarkUsedVariable (js ''--b'')]"
proof -
  have a: "map_of (trackedVariables demo_system) (js ''var(--a, var(--b, red))'') = None"
    by (simp add: demo_system_def buildDesignSystem_def)
  from trackUsedVariables_nested_var [OF a, of demo_collaborators] a show ?thesis
    by (simp add: demo_system_def buildDesignSystem_def)
qed

section \<open>Properties of batch compilation\<close>

lemma funpow_onInvalidCandidate: "(onInvalidCandidate ^^ n) False = (0 < n)"
  by (cases n) (simp_all add: onInvalidCandidate_def)

lemma loop_acc:
  "candidatesToCss_loop cc opt css classes result s
   = (result @ fst (candidatesToCss_loop cc opt css classes [] s),
      snd (candidatesToCss_loop cc opt css classes [] s))"
proof (induction classes arbitrary: result s)
  case Nil
  show ?case by simp
next
  case (Cons c classes)
  obtain entry s' where e: "candidateToCss cc opt css c s = (entry, s')"
    by (cases "candidateToCss cc opt css c s") auto
  show ?case
    using Cons.IH [of "result @ [entry]" s'] Cons.IH [of "[entry]" s'] e by simp
qed

lemma candidatesToCss_Nil: "candidatesToCss cc opt css [] s = ([], s)"
  by (simp add: candidatesToCss_def)

lemma candidatesToCss_Cons:
  "candidatesToCss cc opt css (c # classes) s
   = (fst (candidateToCss cc opt css c s)
        # fst (candidatesToCss cc opt css classes (snd (candidateToCss cc opt css c s))),
      snd (candidatesToCss cc opt css classes (snd (candidateToCss cc opt css c s))))"
  unfolding candidatesToCss_def
  by (simp add: loop_acc [of _ _ _ _ "[_]"] split: prod.splits)

lemma candidatesToCss_append:
  "candidatesToCss cc opt css (xs @ ys) s
   = (fst (candidatesToCss cc opt css xs s)
        @ fst (candidatesToCss cc opt css ys (snd (candidatesToCss cc opt css xs s))),
      snd (candidatesToCss cc opt css ys (snd (candidatesToCss cc opt css xs s))))"
  by (induction xs arbitrary: s) (simp_all add: candidatesToCss_Nil candidatesToCss_Cons)

lemma length_candidatesToCss: "length (fst (candidatesToCss cc opt css classes s)) = length classes"
  by (induction classes arbitrary: s) (simp_all add: candidatesToCss_Nil candidatesToCss_Cons)

lemma candidatesToCss_nth:
  assumes "i < length classes"
  shows "fst (candidatesToCss cc opt css classes s) ! i
         = fst (candidateToCss cc opt css (classes ! i) (state_before cc opt css classes s i))"
proof -
  have split: "classes = take i classes @ (classes ! i) # drop (Suc i) classes"
    using assms by (simp add: id_take_nth_drop)
  have len: "length (fst (candidatesToCss cc opt css (take i classes) s)) = i"
    using assms by (simp add: length_candidatesToCss)
  have "fst (candidatesToCss cc opt css (take i classes @ (classes ! i) # drop (Suc i) classes) s) ! i
        = fst (candidateToCss cc opt css (classes ! i) (state_before cc opt css classes s i))"
    unfolding candidatesToCss_append
    by (simp add: nth_append len candidatesToCss_Cons state_before_def)
  with split show ?thesis by simp
qed

lemma candidateToCss_entry:
  "fst (candidateToCss cc opt css c s)
   = (let ((astNodes, fired), s1) = cc [c] s; optimized = fst (opt astNodes s1)
      in if optimized = [] \<or> 0 < fired then None else Some (css optimized))"
  by (simp add: candidateToCss_def funpow_onInvalidCandidate split: prod.splits)

lemma candidatesToCss_state_independent:
  assumes "\<forall>c s s'. fst (cc [c] s) = fst (cc [c] s')"
    and "\<forall>nodes s s'. fst (opt nodes s) = fst (opt nodes s')"
  shows "fst (candidatesToCss cc opt css classes s)
         = map (\<lambda>c. fst (candidateToCss cc opt css c s0)) classes"
proof (induction classes arbitrary: s)
  case Nil
  show ?case by (simp add: candidatesToCss_Nil)
next
  case (Cons c classes)
  have "fst (candidateToCss cc opt css c s) = fst (candidateToCss cc opt css c s0)"
  proof -
    have cc: "fst (cc [c] s) = fst (cc [c] s0)" using assms(1) by blast
    obtain nodes fired s1 where a: "cc [c] s = ((nodes, fired), s1)"
      by (cases "cc [c] s") auto
    obtain s1' where b: "cc [c] s0 = ((nodes, fired), s1')"
      using cc a by (cases "cc [c] s0") auto
    have "fst (opt nodes s1) = fst (opt nodes s1')" using assms(2) by blast
    with a b show ?thesis by (simp add: candidateToCss_entry)
  qed
  with Cons.IH show ?case by (simp add: candidatesToCss_Cons)
qed

text \<open>
  Claim C3. \<open>candidatesToCss\<close> returns one entry per class name, in order. The entry at
  position \<open>i\<close> is \<open>null\<close> exactly when the optimized nodes of that class name are empty
  or the callback fired while it was compiled, and the serialized optimized nodes
  otherwise; it is the entry that \<open>candidatesToCss\<close> returns for that class name alone
  in the state reached before it, so no flag is carried from one class name to another.
  When the results of the collaborators do not depend on the state, each entry is a
  function of its own class name only.
\<close>

theorem candidatesToCss_per_entry:
  "length (fst (candidatesToCss cc opt css classes s)) = length classes
   \<and> (\<forall>i < length classes.
        let si = state_before cc opt css classes s i;
            ((astNodes, fired), s1) = cc [classes ! i] si;
            optimized = fst (opt astNodes s1);
            entry = fst (candidatesToCss cc opt css classes s) ! i
        in (entry = None \<longleftrightarrow> optimized = [] \<or> 0 < fired)
         \<and> (entry \<noteq> None \<longrightarrow> entry = Some (css optimized))
         \<and> [entry] = fst (candidatesToCss cc opt css [classes ! i] si))
   \<and> ((\<forall>c s s'. fst (cc [c] s) = fst (cc [c] s')) \<and>
       (\<forall>nodes s s'. fst (opt nodes s) = fst (opt nodes s')) \<longrightarrow>
       fst (candidatesToCss cc opt css classes s)
         = map (\<lambda>c. fst (candidateToCss cc opt css c s)) classes)"
proof (intro conjI allI impI)
  show "length (fst (candidatesToCss cc opt css classes s)) = length classes"
    by (rule length_candidatesToCss)
next
  fix i assume i: "i < length classes"
  define si where "si = state_before cc opt css classes s i"
  obtain astNodes fired s1 where c: "cc [classes ! i] si = ((astNodes, fired), s1)"
    by (cases "cc [classes ! i] si") auto
  have entry: "fst (candidatesToCss cc opt css classes s) ! i
               = (if fst (opt astNodes s1) = [] \<or> 0 < fired then None
                  else Some (css (fst (opt astNodes s1))))"
    using candidatesToCss_nth [OF i, of cc opt css s] c
    by (simp add: candidateToCss_entry si_def)
  have single: "fst (candidatesToCss cc opt css [classes ! i] si)
                = [fst (candidatesToCss cc opt css classes s) ! i]"
    using candidatesToCss_nth [OF i, of cc opt css s]
    by (simp add: candidatesToCss_Cons candidatesToCss_Nil si_def)
  show "let si = state_before cc opt css classes s i;
            ((astNodes, fired), s1) = cc [classes ! i] si;
            optimized = fst (opt astNodes s1);
            entry = fst (candidatesToCss cc opt css classes s) ! i
        in (entry = None \<longleftrightarrow> optimized = [] \<or> 0 < fired)
         \<and> (entry \<noteq> None \<longrightarrow> entry = Some (css optimized))
         \<and> [entry] = fst (candidatesToCss cc opt css [classes ! i] si)"
    unfolding Let_def si_def [symmetric] c prod.case
    using entry single by simp
next
  assume "(\<forall>c s s'. fst (cc [c] s) = fst (cc [c] s')) \<and>
       (\<forall>nodes s s'. fst (opt nodes s) = fst (opt nodes s'))"
  then show "fst (candidatesToCss cc opt css classes s)
         = map (\<lambda>c. fst (candidateToCss cc opt css c s)) classes"
    using candidatesToCss_state_independent [of cc opt css classes s s] by blast
qed

theorem candidatesToCss_per_entry_witness:
  "(\<forall>c s s'. fst (demo_compileCandidates [c] s) = fst (demo_compileCandidates [c] s'))
   \<and> (\<forall>nodes s s'. fst (demo_optimizeAst nodes s) = fst (demo_optimizeAst nodes s'))
   \<and> fst (candidatesToCss demo_compileCandidates demo_optimizeAst demo_toCss
            [js ''flex'', js ''garbage-!!'', js ''underline''] 0)
       = [Some (js ''.flex{display:flex}''), None,
          Some (js ''.underline{text-decoration-line:underline}'')]"
proof -
  have a: "\<forall>c s s'. fst (demo_compileCandidates [c] s) = fst (demo_compileCandidates [c] s')"
    by (simp add: demo_compileCandidates_def)
  have b: "\<forall>nodes s s'. fst (demo_optimizeAst nodes s) = fst (demo_optimizeAst nodes s')"
    by (simp add: demo_optimizeAst_def)
  from candidatesToCss_per_entry [of demo_compileCandidates demo_optimizeAst demo_toCss
      "[js ''flex'', js ''garbage-!!'', js ''underline'']" 0] a b
  have "fst (candidatesToCss demo_compileCandidates demo_optimizeAst demo_toCss
            [js ''flex'', js ''garbage-!!'', js ''underline''] 0)
        = map (\<lambda>c. fst (candidateToCss demo_compileCandidates demo_optimizeAst demo_toCss c 0))
            [js ''flex'', js ''garbage-!!'', js ''underline'']"
    by blast
  moreover have "map (\<lambda>c. fst (candidateToCss demo_compileCandidates demo_optimizeAst demo_toCss c 0))
            [js ''flex'', js ''garbage-!!'', js ''underline'']
       = [Some (js ''.flex{display:flex}''), None,
          Some (js ''.underline{text-decoration-line:underline}'')]"
    by (simp add: candidateToCss_entry demo_compileCandidates_def demo_optimizeAst_def
          demo_toCss_def js_def)
  ultimately show ?thesis using a b by simp
qed

end
